theory Spec2Isabelle
  imports Main "HOL-Library.AList" "HOL-Library.Char_ord" "HOL-Library.List_Lexorder"
    "HOL-Library.Multiset"
begin

section \<open>JSON documents\<close>

text \<open>
  The value type of the JSON library the store is written against. Numbers are restricted
  to integers. An object is kept as a list of key/value pairs in ascending key order with
  unique keys, which is how the library's default object type (an ordered map) iterates.
\<close>

datatype json =
    JNull
  | JBool bool
  | JInt int
  | JString string
  | JArray "json list"
  | JObject "(string \<times> json) list"

fun is_null :: "json \<Rightarrow> bool" where
  "is_null JNull = True"
| "is_null _ = False"

fun is_array :: "json \<Rightarrow> bool" where
  "is_array (JArray _) = True"
| "is_array _ = False"

fun is_object :: "json \<Rightarrow> bool" where
  "is_object (JObject _) = True"
| "is_object _ = False"

text \<open>The elements of an array; a value that is not an array has none.\<close>

fun elems :: "json \<Rightarrow> json list" where
  "elems (JArray xs) = xs"
| "elems _ = []"

text \<open>\<open>j.contains(key)\<close>: false for every value that is not an object.\<close>

fun contains :: "json \<Rightarrow> string \<Rightarrow> bool" where
  "contains (JObject kvs) k = (map_of kvs k \<noteq> None)"
| "contains _ k = False"

fun obj_insert :: "string \<Rightarrow> json \<Rightarrow> (string \<times> json) list \<Rightarrow> (string \<times> json) list" where
  "obj_insert k v [] = [(k, v)]"
| "obj_insert k v ((k', v') # kvs) =
     (if k = k' then (k, v) # kvs
      else if k < k' then (k, v) # (k', v') # kvs
      else (k', v') # obj_insert k v kvs)"

section \<open>Errors\<close>

text \<open>
  The exception classes that can leave the store's functions. \<open>FileNotFoundError\<close> and
  \<open>ValidationError\<close> derive from \<open>JSONStoreError\<close>. \<open>FilesystemError\<close> stands for
  \<open>std::filesystem::filesystem_error\<close>, \<open>JsonParseError\<close> and \<open>JsonTypeError\<close> for the
  JSON library's own exceptions; these three escape wherever the source has no handler.
  Exception messages are not modelled.
\<close>

datatype error =
    JSONStoreError
  | FileNotFoundError
  | ValidationError
  | FilesystemError
  | JsonParseError
  | JsonTypeError

fun is_JSONStoreError :: "error \<Rightarrow> bool" where
  "is_JSONStoreError JSONStoreError = True"
| "is_JSONStoreError FileNotFoundError = True"
| "is_JSONStoreError ValidationError = True"
| "is_JSONStoreError _ = False"

text \<open>\<open>j[key] = v\<close>: a null value becomes an object first; any other non-object throws.\<close>

fun set_key :: "string \<Rightarrow> json \<Rightarrow> json \<Rightarrow> error + json" where
  "set_key k v JNull = Inr (JObject [(k, v)])"
| "set_key k v (JObject kvs) = Inr (JObject (obj_insert k v kvs))"
| "set_key k v _ = Inl JsonTypeError"

section \<open>Clock readings\<close>

text \<open>
  One reading of the system clock: the tick count since the epoch and the broken-down local
  time, with the calendar values as \<open>strftime\<close> prints them. Years are printed with four
  digits (years up to 9999).
\<close>

record clock =
  ticks :: int
  year :: nat
  month :: nat
  mday :: nat
  hour :: nat
  minute :: nat
  second :: nat

definition digit :: "nat \<Rightarrow> char" where
  "digit n = ''0123456789'' ! (n mod 10)"

definition dec2 :: "nat \<Rightarrow> string" where
  "dec2 n = [digit (n div 10), digit n]"

definition dec4 :: "nat \<Rightarrow> string" where
  "dec4 n = [digit (n div 1000), digit (n div 100), digit (n div 10), digit n]"

text \<open>\<open>strftime\<close> with the format \<open>%Y%m%d\<close>.\<close>

definition strftime_Ymd :: "clock \<Rightarrow> string" where
  "strftime_Ymd c = dec4 (year c) @ dec2 (month c) @ dec2 (mday c)"

text \<open>\<open>strftime\<close> with the format \<open>%Y%m%d_%H%M%S\<close>.\<close>

definition strftime_YmdHMS :: "clock \<Rightarrow> string" where
  "strftime_YmdHMS c =
     dec4 (year c) @ dec2 (month c) @ dec2 (mday c) @ ''_'' @
     dec2 (hour c) @ dec2 (minute c) @ dec2 (second c)"

section \<open>Paths\<close>

text \<open>
  Paths are strings in the generic format with \<open>/\<close> as the separator. The functions
  follow \<open>std::filesystem::path\<close> on such strings; root names are not modelled.
\<close>

definition filename :: "string \<Rightarrow> string" where
  "filename p = rev (takeWhile (\<lambda>ch. ch \<noteq> CHR ''/'') (rev p))"

definition parent_path :: "string \<Rightarrow> string" where
  "parent_path p =
     (let r = dropWhile (\<lambda>ch. ch \<noteq> CHR ''/'') (rev p);
          r' = dropWhile (\<lambda>ch. ch = CHR ''/'') r
      in if r' = [] then (if r = [] then [] else ''/'') else rev r')"

text \<open>
  The extension of a file name starts at its last dot, unless the name is \<open>.\<close> or \<open>..\<close>
  or the only dot is the first character.
\<close>

definition name_extension :: "string \<Rightarrow> string" where
  "name_extension f =
     (if CHR ''.'' \<notin> set f \<or> f = ''.'' \<or> f = ''..'' then []
      else let after = takeWhile (\<lambda>ch. ch \<noteq> CHR ''.'') (rev f);
               dot = length f - length after - 1
           in if dot = 0 then [] else drop dot f)"

definition extension :: "string \<Rightarrow> string" where
  "extension p = name_extension (filename p)"

definition stem :: "string \<Rightarrow> string" where
  "stem p = (let f = filename p in take (length f - length (name_extension f)) f)"

text \<open>\<open>d / n\<close>: an absolute right operand replaces the left one.\<close>

definition path_join :: "string \<Rightarrow> string \<Rightarrow> string" where
  "path_join d n =
     (if n \<noteq> [] \<and> hd n = CHR ''/'' then n
      else if d = [] then n
      else if last d = CHR ''/'' then d @ n
      else d @ ''/'' @ n)"

text \<open>\<open>s.find(pat) != npos\<close>: \<open>pat\<close> occurs in \<open>s\<close> as a contiguous substring.\<close>

fun str_find :: "string \<Rightarrow> string \<Rightarrow> bool" where
  "str_find pat [] = (pat = [])"
| "str_find pat (ch # s) = (take (length pat) (ch # s) = pat \<or> str_find pat s)"

text \<open>Conversion of an \<open>int\<close> to the 64-bit \<open>size_t\<close>.\<close>

definition to_size_t :: "int \<Rightarrow> nat" where
  "to_size_t i = nat (i mod 2 ^ 64)"

section \<open>The file system and the serialization library\<close>

text \<open>
  A file is a sequence over an alphabet \<open>'b\<close> that is left open, and a modification time.
  The file system holds regular files only, each under its path; directories exist
  implicitly. The six predicates say at which paths a primitive fails: opening an output
  stream, opening an input stream, \<open>rename\<close> onto a target, \<open>remove\<close>, \<open>copy_file\<close> onto a
  target, and iterating a directory. The parent of a path without a directory part is the
  empty path, which names no directory; a world in which iterating it throws has \<open>ls_fail\<close>
  at the empty path.
\<close>

record 'b fsfile =
  content :: "'b list"
  mtime :: int

record 'b world =
  files :: "(string \<times> 'b fsfile) list"
  wr_fail :: "string \<Rightarrow> bool"
  rd_fail :: "string \<Rightarrow> bool"
  mv_fail :: "string \<Rightarrow> bool"
  rm_fail :: "string \<Rightarrow> bool"
  cp_fail :: "string \<Rightarrow> bool"
  ls_fail :: "string \<Rightarrow> bool"

text \<open>
  The JSON library's printer and parser are parameters: \<open>dump cdc indent v\<close> is what
  \<open>file << std::setw(indent) << v << std::endl\<close> puts into the file, or \<open>None\<close> when the
  printer throws; \<open>parse cdc bs\<close> is what \<open>file >> data\<close> reads, or \<open>None\<close> when the
  parser throws.
\<close>

record 'b codec =
  dump :: "int \<Rightarrow> json \<Rightarrow> 'b list option"
  parse :: "'b list \<Rightarrow> json option"

definition fs_exists :: "'b world \<Rightarrow> string \<Rightarrow> bool" where
  "fs_exists w p = (map_of (files w) p \<noteq> None)"

definition fs_put :: "string \<Rightarrow> 'b fsfile \<Rightarrow> 'b world \<Rightarrow> 'b world" where
  "fs_put p f w = w\<lparr>files := AList.update p f (files w)\<rparr>"

definition fs_remove :: "string \<Rightarrow> 'b world \<Rightarrow> 'b world" where
  "fs_remove p w = w\<lparr>files := AList.delete p (files w)\<rparr>"

text \<open>\<open>fs::rename\<close>: the source takes the target's place; \<open>None\<close> when it throws.\<close>

definition fs_rename :: "string \<Rightarrow> string \<Rightarrow> 'b world \<Rightarrow> 'b world option" where
  "fs_rename src dst w =
     (case map_of (files w) src of
        None \<Rightarrow> None
      | Some f \<Rightarrow> if mv_fail w dst then None else Some (fs_put dst f (fs_remove src w)))"

text \<open>\<open>fs::copy_file\<close> with \<open>overwrite_existing\<close>; the copy is written at the time \<open>c\<close>.\<close>

definition fs_copy_file :: "string \<Rightarrow> string \<Rightarrow> clock \<Rightarrow> 'b world \<Rightarrow> 'b world option" where
  "fs_copy_file src dst c w =
     (case map_of (files w) src of
        None \<Rightarrow> None
      | Some f \<Rightarrow>
          if cp_fail w dst then None
          else Some (fs_put dst \<lparr>content = content f, mtime = ticks c\<rparr> w))"

text \<open>\<open>fs::directory_iterator d\<close>: the paths \<open>d / name\<close> of the files directly in \<open>d\<close>.\<close>

definition fs_list :: "'b world \<Rightarrow> string \<Rightarrow> string list option" where
  "fs_list w d =
     (if ls_fail w d then None
      else Some [p \<leftarrow> map fst (files w). p = path_join d (filename p)])"

definition last_write_time :: "'b world \<Rightarrow> string \<Rightarrow> int" where
  "last_write_time w p = (case map_of (files w) p of Some f \<Rightarrow> mtime f | None \<Rightarrow> 0)"

section \<open>JSONStore\<close>

text \<open>
  The members of the class. Here and below, members and private functions carry the
  source's names without the trailing underscore.
\<close>

record JSONStore =
  file_path :: string
  auto_create :: bool
  auto_backup :: bool
  max_backups :: int
  indent :: int
  encoding :: string
  validate_func :: "(json \<Rightarrow> bool) option"

text \<open>
  \<open>JSONStore::write_internal_\<close>. The \<open>try\<close> block either ends with the renamed file or
  throws, leaving the world as it was at the throw; the handler then removes the temporary
  file if it exists, swallowing a failure of the removal, and throws \<open>JSONStoreError\<close>.
  When the printer throws, the temporary file has been opened and holds no complete
  document; it is modelled as empty.
\<close>

definition write_attempt ::
  "'b codec \<Rightarrow> JSONStore \<Rightarrow> clock \<Rightarrow> json \<Rightarrow> 'b world \<Rightarrow> 'b world + 'b world" where
  "write_attempt cdc st c data w =
     (let temp_file = file_path st @ ''.tmp'' in
      if wr_fail w temp_file then Inl w
      else case dump cdc (indent st) data of
             None \<Rightarrow> Inl (fs_put temp_file \<lparr>content = [], mtime = ticks c\<rparr> w)
           | Some bs \<Rightarrow>
               let w1 = fs_put temp_file \<lparr>content = bs, mtime = ticks c\<rparr> w in
               (case fs_rename temp_file (file_path st) w1 of
                  None \<Rightarrow> Inl w1
                | Some w2 \<Rightarrow> Inr w2))"

definition write_internal ::
  "'b codec \<Rightarrow> JSONStore \<Rightarrow> clock \<Rightarrow> json \<Rightarrow> 'b world \<Rightarrow> (error + unit) \<times> 'b world" where
  "write_internal cdc st c data w =
     (case write_attempt cdc st c data w of
        Inr w2 \<Rightarrow> (Inr (), w2)
      | Inl w1 \<Rightarrow>
          (let temp_file = file_path st @ ''.tmp'' in
           (Inl JSONStoreError,
            if fs_exists w1 temp_file \<and> \<not> rm_fail w1 temp_file
            then fs_remove temp_file w1 else w1)))"

text \<open>
  The constructor. Creating the parent directories has no effect on the files. The
  arguments are those of the C++ constructor, in its order. The public member functions
  are named \<open>JSONStore_read\<close>, \<open>JSONStore_write\<close> and so on.
\<close>

definition JSONStore_init ::
  "'b codec \<Rightarrow> string \<Rightarrow> bool \<Rightarrow> bool \<Rightarrow> int \<Rightarrow> int \<Rightarrow> string \<Rightarrow> (json \<Rightarrow> bool) option \<Rightarrow>
   clock \<Rightarrow> 'b world \<Rightarrow> (error + JSONStore) \<times> 'b world" where
  "JSONStore_init cdc path create backup maxb ind enc vf c w =
     (let st = \<lparr>file_path = path, auto_create = create, auto_backup = backup,
                max_backups = maxb, indent = ind, encoding = enc, validate_func = vf\<rparr>
      in if \<not> fs_exists w path \<and> create
         then (case write_internal cdc st c (JObject []) w of
                 (Inl e, w') \<Rightarrow> (Inl e, w')
               | (Inr _, w') \<Rightarrow> (Inr st, w'))
         else (Inr st, w))"

text \<open>
  \<open>JSONStore::read\<close>. The body throws \<open>FileNotFoundError\<close> for an absent file and a null
  default, \<open>JSONStoreError\<close> for a file that cannot be opened, and the parser's exception for
  a malformed file. The two handlers around the body catch the parser's exception and
  every \<open>std::exception\<close>, and each throws a plain \<open>JSONStoreError\<close>.
\<close>

definition read_body :: "'b codec \<Rightarrow> JSONStore \<Rightarrow> json \<Rightarrow> 'b world \<Rightarrow> error + json" where
  "read_body cdc st default_value w =
     (case map_of (files w) (file_path st) of
        None \<Rightarrow> if \<not> is_null default_value then Inr default_value else Inl FileNotFoundError
      | Some f \<Rightarrow>
          if rd_fail w (file_path st) then Inl JSONStoreError
          else (case parse cdc (content f) of
                  None \<Rightarrow> Inl JsonParseError
                | Some data \<Rightarrow> Inr data))"

definition JSONStore_read :: "'b codec \<Rightarrow> JSONStore \<Rightarrow> json \<Rightarrow> 'b world \<Rightarrow> error + json" where
  "JSONStore_read cdc st default_value w =
     (case read_body cdc st default_value w of
        Inr data \<Rightarrow> Inr data
      | Inl e \<Rightarrow> (if e = JsonParseError then Inl JSONStoreError else Inl JSONStoreError))"

text \<open>
  \<open>JSONStore::cleanup_old_backups_\<close>. The directory's order of iteration and the order
  \<open>std::sort\<close> gives to backups of equal modification time are unspecified; the model
  takes the order of the file list and a stable sort. The loop starts at the index
  \<open>max_backups\<close> converted to \<open>size_t\<close>, and swallows a failure of each removal.
\<close>

definition remove_quiet :: "string \<Rightarrow> 'b world \<Rightarrow> 'b world" where
  "remove_quiet p w = (if rm_fail w p then w else fs_remove p w)"

definition backup_pattern :: "JSONStore \<Rightarrow> string" where
  "backup_pattern st = stem (file_path st) @ ''_backup_''"

definition cleanup_old_backups :: "JSONStore \<Rightarrow> 'b world \<Rightarrow> (error + unit) \<times> 'b world" where
  "cleanup_old_backups st w =
     (case fs_list w (parent_path (file_path st)) of
        None \<Rightarrow> (Inl FilesystemError, w)
      | Some entries \<Rightarrow>
          (let backups = [p \<leftarrow> entries. str_find (backup_pattern st) (filename p)];
               sorted = sort_key (\<lambda>p. - last_write_time w p) backups
           in (Inr (), fold remove_quiet (drop (to_size_t (max_backups st)) sorted) w)))"

definition backup_path :: "JSONStore \<Rightarrow> clock \<Rightarrow> string" where
  "backup_path st c =
     path_join (parent_path (file_path st))
       (stem (file_path st) @ ''_backup_'' @ strftime_YmdHMS c @ extension (file_path st))"

text \<open>\<open>JSONStore::create_backup_\<close>; it returns the backup's path, or the empty string.\<close>

definition create_backup ::
  "JSONStore \<Rightarrow> clock \<Rightarrow> 'b world \<Rightarrow> (error + string) \<times> 'b world" where
  "create_backup st c w =
     (if \<not> fs_exists w (file_path st) then (Inr [], w)
      else case fs_copy_file (file_path st) (backup_path st c) c w of
             None \<Rightarrow> (Inl FilesystemError, w)
           | Some w1 \<Rightarrow>
               (case cleanup_old_backups st w1 of
                  (Inl e, w2) \<Rightarrow> (Inl e, w2)
                | (Inr _, w2) \<Rightarrow> (Inr (backup_path st c), w2)))"

text \<open>\<open>JSONStore::write\<close>; \<open>rejects\<close> is the test of its first statement.\<close>

definition rejects :: "JSONStore \<Rightarrow> json \<Rightarrow> bool" where
  "rejects st data = (case validate_func st of None \<Rightarrow> False | Some f \<Rightarrow> \<not> f data)"

definition JSONStore_write ::
  "'b codec \<Rightarrow> JSONStore \<Rightarrow> clock \<Rightarrow> json \<Rightarrow> bool \<Rightarrow> 'b world \<Rightarrow> (error + unit) \<times> 'b world" where
  "JSONStore_write cdc st c data validate w =
     (if validate \<and> rejects st data then (Inl ValidationError, w)
      else case (if auto_backup st \<and> fs_exists w (file_path st)
                 then create_backup st c w else (Inr [], w)) of
             (Inl e, w1) \<Rightarrow> (Inl e, w1)
           | (Inr _, w1) \<Rightarrow> write_internal cdc st c data w1)"

text \<open>
  \<open>JSONStore::update\<close>. The current data is the empty object when the file is absent or
  cannot be opened; the parser's exception is not caught. The update function is a total
  function on documents.
\<close>

definition current_data :: "'b codec \<Rightarrow> JSONStore \<Rightarrow> 'b world \<Rightarrow> error + json" where
  "current_data cdc st w =
     (case map_of (files w) (file_path st) of
        None \<Rightarrow> Inr (JObject [])
      | Some f \<Rightarrow>
          if rd_fail w (file_path st) then Inr (JObject [])
          else (case parse cdc (content f) of
                  None \<Rightarrow> Inl JsonParseError
                | Some data \<Rightarrow> Inr data))"

definition JSONStore_update ::
  "'b codec \<Rightarrow> JSONStore \<Rightarrow> clock \<Rightarrow> (json \<Rightarrow> json) \<Rightarrow> 'b world \<Rightarrow> (error + json) \<times> 'b world" where
  "JSONStore_update cdc st c update_func w =
     (case current_data cdc st w of
        Inl e \<Rightarrow> (Inl e, w)
      | Inr data \<Rightarrow>
          (let new_data = update_func data in
           case write_internal cdc st c new_data w of
             (Inl e, w') \<Rightarrow> (Inl e, w')
           | (Inr _, w') \<Rightarrow> (Inr new_data, w')))"

text \<open>
  \<open>JSONStore::delete_file\<close>. Every exception of the backup or of the removal is caught and
  thrown again as \<open>JSONStoreError\<close>.
\<close>

definition JSONStore_delete_file ::
  "JSONStore \<Rightarrow> clock \<Rightarrow> bool \<Rightarrow> 'b world \<Rightarrow> (error + bool) \<times> 'b world" where
  "JSONStore_delete_file st c backup_first w =
     (if \<not> fs_exists w (file_path st) then (Inr False, w)
      else case (if backup_first then create_backup st c w else (Inr [], w)) of
             (Inl e, w1) \<Rightarrow> (Inl JSONStoreError, w1)
           | (Inr _, w1) \<Rightarrow>
               if rm_fail w1 (file_path st) then (Inl JSONStoreError, w1)
               else (Inr True, fs_remove (file_path st) w1))"

section \<open>DictJSONStore and ListJSONStore\<close>

text \<open>
  Both classes derive from \<open>JSONStore\<close> and add no member. Their constructors take the
  path and a map \<open>kwargs\<close> from strings to strings, here an association list.
\<close>

definition DictJSONStore_init ::
  "'b codec \<Rightarrow> string \<Rightarrow> (string \<times> string) list \<Rightarrow> clock \<Rightarrow> 'b world \<Rightarrow>
   (error + JSONStore) \<times> 'b world" where
  "DictJSONStore_init cdc path kwargs c w =
     JSONStore_init cdc path True True 5 2 ''utf-8'' None c w"

definition ListJSONStore_init ::
  "'b codec \<Rightarrow> string \<Rightarrow> (string \<times> string) list \<Rightarrow> clock \<Rightarrow> 'b world \<Rightarrow>
   (error + JSONStore) \<times> 'b world" where
  "ListJSONStore_init cdc path kwargs c w =
     JSONStore_init cdc path True True 5 2 ''utf-8'' None c w"

text \<open>\<open>ListJSONStore::append\<close>, with its update function.\<close>

definition append_func :: "json \<Rightarrow> json \<Rightarrow> json" where
  "append_func item data =
     (case (if \<not> is_array data then JArray [] else data) of
        JArray xs \<Rightarrow> JArray (xs @ [item])
      | other \<Rightarrow> other)"

definition ListJSONStore_append ::
  "'b codec \<Rightarrow> JSONStore \<Rightarrow> clock \<Rightarrow> json \<Rightarrow> 'b world \<Rightarrow> (error + unit) \<times> 'b world" where
  "ListJSONStore_append cdc st c item w =
     (case JSONStore_update cdc st c (append_func item) w of
        (Inl e, w') \<Rightarrow> (Inl e, w')
      | (Inr _, w') \<Rightarrow> (Inr (), w'))"

text \<open>
  \<open>ListJSONStore::remove\<close>, with its update function: \<open>std::find\<close> gives the first
  element equal to the item, which is erased.
\<close>

definition remove_func :: "json \<Rightarrow> json \<Rightarrow> json" where
  "remove_func item data =
     (case data of
        JArray xs \<Rightarrow> JArray (remove1 item xs)
      | other \<Rightarrow> other)"

definition ListJSONStore_remove ::
  "'b codec \<Rightarrow> JSONStore \<Rightarrow> clock \<Rightarrow> json \<Rightarrow> 'b world \<Rightarrow> (error + bool) \<times> 'b world" where
  "ListJSONStore_remove cdc st c item w =
     (case JSONStore_update cdc st c (remove_func item) w of
        (Inl e, w') \<Rightarrow> (Inl e, w')
      | (Inr _, w') \<Rightarrow> (Inr True, w'))"

text \<open>\<open>ListJSONStore::length\<close>.\<close>

definition ListJSONStore_length :: "'b codec \<Rightarrow> JSONStore \<Rightarrow> 'b world \<Rightarrow> error + nat" where
  "ListJSONStore_length cdc st w =
     (case JSONStore_read cdc st (JArray []) w of
        Inl e \<Rightarrow> Inl e
      | Inr data \<Rightarrow> Inr (if is_array data then length (elems data) else 0))"

section \<open>LogStore\<close>

record LogStore =
  directory :: string
  prefix :: string
  max_entries_per_file :: int
  auto_rotate :: bool
  current_store :: "JSONStore option"

definition LogStore_init :: "string \<Rightarrow> string \<Rightarrow> int \<Rightarrow> bool \<Rightarrow> LogStore" where
  "LogStore_init dir pre max_entries rot =
     \<lparr>directory = dir, prefix = pre, max_entries_per_file = max_entries,
      auto_rotate = rot, current_store = None\<rparr>"

definition get_current_file_path :: "LogStore \<Rightarrow> clock \<Rightarrow> string" where
  "get_current_file_path ls c =
     path_join (directory ls) (prefix ls @ ''_'' @ strftime_Ymd c @ ''.json'')"

definition rotation_path :: "LogStore \<Rightarrow> clock \<Rightarrow> string" where
  "rotation_path ls c =
     path_join (directory ls) (prefix ls @ ''_'' @ strftime_YmdHMS c @ ''.json'')"

text \<open>
  Binding the journal to a new store: the constructor runs first, and the member is
  assigned only when it has not thrown. The result is the store now held.
\<close>

definition bind_store ::
  "'b codec \<Rightarrow> LogStore \<Rightarrow> string \<Rightarrow> clock \<Rightarrow> 'b world \<Rightarrow>
   (error + JSONStore) \<times> LogStore \<times> 'b world" where
  "bind_store cdc ls path c w =
     (case ListJSONStore_init cdc path [] c w of
        (Inl e, w') \<Rightarrow> (Inl e, ls, w')
      | (Inr s, w') \<Rightarrow> (Inr s, ls\<lparr>current_store := Some s\<rparr>, w'))"

text \<open>\<open>LogStore::rotate_\<close>.\<close>

definition rotate ::
  "'b codec \<Rightarrow> LogStore \<Rightarrow> clock \<Rightarrow> 'b world \<Rightarrow> (error + JSONStore) \<times> LogStore \<times> 'b world" where
  "rotate cdc ls c w = bind_store cdc ls (rotation_path ls c) c w"

text \<open>
  \<open>LogStore::get_current_store_\<close>. The comparison of the length with
  \<open>max_entries_per_file_\<close> converts the latter to \<open>size_t\<close>. One clock reading serves
  the whole call.
\<close>

definition get_current_store ::
  "'b codec \<Rightarrow> LogStore \<Rightarrow> clock \<Rightarrow> 'b world \<Rightarrow> (error + JSONStore) \<times> LogStore \<times> 'b world" where
  "get_current_store cdc ls c w =
     (let path = get_current_file_path ls c in
      case (case current_store ls of
              None \<Rightarrow> bind_store cdc ls path c w
            | Some s \<Rightarrow> if file_path s \<noteq> path then bind_store cdc ls path c w
                       else (Inr s, ls, w)) of
        (Inl e, ls1, w1) \<Rightarrow> (Inl e, ls1, w1)
      | (Inr s, ls1, w1) \<Rightarrow>
          if auto_rotate ls1
          then (case ListJSONStore_length cdc s w1 of
                  Inl e \<Rightarrow> (Inl e, ls1, w1)
                | Inr n \<Rightarrow>
                    if n \<ge> to_size_t (max_entries_per_file ls1) then rotate cdc ls1 c w1
                    else (Inr s, ls1, w1))
          else (Inr s, ls1, w1))"

text \<open>\<open>LogStore::add_log\<close>; the time stamp is the clock's tick count.\<close>

definition stamp_entry :: "clock \<Rightarrow> json \<Rightarrow> error + json" where
  "stamp_entry c log_entry =
     (if \<not> contains log_entry ''timestamp''
      then set_key ''timestamp'' (JInt (ticks c)) log_entry
      else Inr log_entry)"

definition add_log ::
  "'b codec \<Rightarrow> LogStore \<Rightarrow> clock \<Rightarrow> json \<Rightarrow> 'b world \<Rightarrow> (error + unit) \<times> LogStore \<times> 'b world" where
  "add_log cdc ls c log_entry w =
     (case stamp_entry c log_entry of
        Inl e \<Rightarrow> (Inl e, ls, w)
      | Inr entry \<Rightarrow>
          (case get_current_store cdc ls c w of
             (Inl e, ls1, w1) \<Rightarrow> (Inl e, ls1, w1)
           | (Inr s, ls1, w1) \<Rightarrow>
               (case ListJSONStore_append cdc s c entry w1 of
                  (Inl e, w2) \<Rightarrow> (Inl e, ls1, w2)
                | (Inr _, w2) \<Rightarrow> (Inr (), ls1, w2))))"

text \<open>
  \<open>LogStore::get_logs\<close>. The loop over the sorted files builds a \<open>ListJSONStore\<close> for
  each and reads it with the empty array as the default; \<open>logs\<close> is the vector filled so
  far. Paths compare as their strings do.
\<close>

fun read_logs ::
  "'b codec \<Rightarrow> clock \<Rightarrow> string list \<Rightarrow> json list \<Rightarrow> 'b world \<Rightarrow>
   (error + json list) \<times> 'b world" where
  "read_logs cdc c [] logs w = (Inr logs, w)"
| "read_logs cdc c (p # ps) logs w =
     (case ListJSONStore_init cdc p [] c w of
        (Inl e, w') \<Rightarrow> (Inl e, w')
      | (Inr store, w') \<Rightarrow>
          (case JSONStore_read cdc store (JArray []) w' of
             Inl e \<Rightarrow> (Inl e, w')
           | Inr data \<Rightarrow>
               read_logs cdc c ps (if is_array data then logs @ elems data else logs) w'))"

definition log_files :: "LogStore \<Rightarrow> string list \<Rightarrow> string list" where
  "log_files ls entries = sort [p \<leftarrow> entries. str_find (prefix ls @ ''_'') (filename p)]"

definition get_logs ::
  "'b codec \<Rightarrow> LogStore \<Rightarrow> int \<Rightarrow> int \<Rightarrow> (json \<Rightarrow> bool) option \<Rightarrow> clock \<Rightarrow> 'b world \<Rightarrow>
   (error + json list) \<times> 'b world" where
  "get_logs cdc ls start_date end_date filter_func c w =
     (case fs_list w (directory ls) of
        None \<Rightarrow> (Inl FilesystemError, w)
      | Some entries \<Rightarrow>
          (case read_logs cdc c (log_files ls entries) [] w of
             (Inl e, w') \<Rightarrow> (Inl e, w')
           | (Inr logs, w') \<Rightarrow>
               (Inr (case filter_func of None \<Rightarrow> logs | Some f \<Rightarrow> filter f logs), w')))"

section \<open>Auxiliary notions\<close>

text \<open>
  A codec over the alphabet of JSON values themselves, whose printer writes the value as
  a one-letter file, and a file system without files in which no primitive throws.
\<close>

definition id_codec :: "json codec" where
  "id_codec =
     \<lparr>dump = (\<lambda>i v. Some [v]),
      parse = (\<lambda>bs. case bs of [v] \<Rightarrow> Some v | _ \<Rightarrow> None)\<rparr>"

definition empty_world :: "json world" where
  "empty_world =
     \<lparr>files = [], wr_fail = (\<lambda>p. False), rd_fail = (\<lambda>p. False),
      mv_fail = (\<lambda>p. False), rm_fail = (\<lambda>p. False), cp_fail = (\<lambda>p. False),
      ls_fail = (\<lambda>p. False)\<rparr>"

text \<open>Two worlds in which the same primitives throw at the same paths.\<close>

definition same_faults :: "'b world \<Rightarrow> 'b world \<Rightarrow> bool" where
  "same_faults w w' =
     (wr_fail w' = wr_fail w \<and> rd_fail w' = rd_fail w \<and> mv_fail w' = mv_fail w \<and>
      rm_fail w' = rm_fail w \<and> cp_fail w' = cp_fail w \<and> ls_fail w' = ls_fail w)"

definition demo_clock :: clock where
  "demo_clock =
     \<lparr>ticks = 100, year = 2024, month = 1, mday = 2, hour = 3, minute = 4, second = 5\<rparr>"

definition demo_store :: JSONStore where
  "demo_store = \<lparr>file_path = ''data/x.json'', auto_create = True, auto_backup = True,
     max_backups = 5, indent = 2, encoding = ''utf-8'', validate_func = None\<rparr>"

text \<open>A file system whose only file is the demo store's document, the array \<open>[1]\<close>.\<close>

definition demo_world :: "json world" where
  "demo_world = fs_put ''data/x.json'' \<lparr>content = [JArray [JInt 1]], mtime = 50\<rparr> empty_world"

text \<open>
  The files that \<open>cleanup_old_backups\<close> takes for the store's backups: those in the
  directory of the document whose name contains the backup pattern.
\<close>

definition backup_files :: "JSONStore \<Rightarrow> 'b world \<Rightarrow> string list" where
  "backup_files st w =
     [p \<leftarrow> map fst (files w).
        p = path_join (parent_path (file_path st)) (filename p) \<and>
        str_find (backup_pattern st) (filename p)]"

text \<open>The document a file holds, if the file exists, can be opened and parses.\<close>

definition doc_at :: "'b codec \<Rightarrow> 'b world \<Rightarrow> string \<Rightarrow> json option" where
  "doc_at cdc w p =
     (case map_of (files w) p of
        None \<Rightarrow> None
      | Some f \<Rightarrow> if rd_fail w p then None else parse cdc (content f))"

text \<open>
  No primitive throws anywhere; the printer prints a value, at every indent, and the parser
  reads it back.
\<close>

definition no_faults :: "'b world \<Rightarrow> bool" where
  "no_faults w =
     (\<forall>p. \<not> wr_fail w p \<and> \<not> rd_fail w p \<and> \<not> mv_fail w p \<and> \<not> rm_fail w p \<and>
          \<not> cp_fail w p \<and> \<not> ls_fail w p)"

definition roundtrip :: "'b codec \<Rightarrow> json \<Rightarrow> bool" where
  "roundtrip cdc v = (\<forall>i. \<exists>bs. dump cdc i v = Some bs \<and> parse cdc bs = Some v)"

text \<open>Sequences of calls on one store, each with the clock reading at the call.\<close>

datatype store_op =
    Write json bool
  | Update "json \<Rightarrow> json"
  | Delete bool

fun apply_op :: "'b codec \<Rightarrow> JSONStore \<Rightarrow> clock \<times> store_op \<Rightarrow> 'b world \<Rightarrow> 'b world" where
  "apply_op cdc st (c, Write data validate) w = snd (JSONStore_write cdc st c data validate w)"
| "apply_op cdc st (c, Update update_func) w = snd (JSONStore_update cdc st c update_func w)"
| "apply_op cdc st (c, Delete backup_first) w = snd (JSONStore_delete_file st c backup_first w)"

definition run_ops :: "'b codec \<Rightarrow> JSONStore \<Rightarrow> (clock \<times> store_op) list \<Rightarrow> 'b world \<Rightarrow> 'b world" where
  "run_ops cdc st ops w = fold (apply_op cdc st) ops w"

text \<open>The backups that \<open>cleanup_old_backups\<close> removes, when the directory can be read.\<close>

definition doomed :: "JSONStore \<Rightarrow> 'b world \<Rightarrow> string list" where
  "doomed st w = drop (to_size_t (max_backups st))
     (sort_key (\<lambda>p. - last_write_time w p) (backup_files st w))"


definition named_store :: JSONStore where
  "named_store = demo_store\<lparr>validate_func := Some (\<lambda>j. contains j ''name'')\<rparr>"

text \<open>
  The demo store with room for one backup; three later clock readings; four calls on the
  store.
\<close>

definition tight_store :: JSONStore where
  "tight_store = demo_store\<lparr>max_backups := 1\<rparr>"

definition demo_clock2 :: clock where
  "demo_clock2 = demo_clock\<lparr>ticks := 200, second := 6\<rparr>"

definition demo_clock3 :: clock where
  "demo_clock3 = demo_clock\<lparr>ticks := 300, second := 7\<rparr>"

definition demo_clock4 :: clock where
  "demo_clock4 = demo_clock\<lparr>ticks := 400, second := 8\<rparr>"

definition demo_ops :: "(clock \<times> store_op) list" where
  "demo_ops =
     [(demo_clock, Write (JInt 1) True), (demo_clock2, Update id),
      (demo_clock3, Write (JInt 2) True), (demo_clock4, Delete True)]"

text \<open>
  The same store under a path without a directory part, whose parent path is empty; a file
  system that holds its document and in which iterating the empty path throws, as
  \<open>fs::directory_iterator\<close> does for a path that names no directory; three writes at three
  different seconds.
\<close>

definition bare_store :: JSONStore where
  "bare_store = tight_store\<lparr>file_path := ''x.json''\<rparr>"

definition bare_world :: "json world" where
  "bare_world =
     (fs_put ''x.json'' \<lparr>content = [JArray [JInt 1]], mtime = 50\<rparr> empty_world)
       \<lparr>ls_fail := (\<lambda>p. p = [])\<rparr>"

definition bare_ops :: "(clock \<times> store_op) list" where
  "bare_ops =
     [(demo_clock, Write (JInt 1) True), (demo_clock2, Write (JInt 2) True),
      (demo_clock3, Write (JInt 3) True)]"

text \<open>The store that the constructor of \<open>ListJSONStore\<close> builds for a path.\<close>

definition list_store :: "string \<Rightarrow> JSONStore" where
  "list_store path =
     \<lparr>file_path = path, auto_create = True, auto_backup = True, max_backups = 5,
      indent = 2, encoding = ''utf-8'', validate_func = None\<rparr>"

text \<open>The entries a file contributes to the journal: the elements of its array, if any.\<close>

definition file_entries :: "'b codec \<Rightarrow> 'b world \<Rightarrow> string \<Rightarrow> json list" where
  "file_entries cdc w p = (case doc_at cdc w p of Some d \<Rightarrow> elems d | None \<Rightarrow> [])"

text \<open>Sequences of \<open>add_log\<close> calls on one journal, each with its clock reading.\<close>

fun add_logs ::
  "'b codec \<Rightarrow> LogStore \<Rightarrow> (clock \<times> json) list \<Rightarrow> 'b world \<Rightarrow> LogStore \<times> 'b world" where
  "add_logs cdc ls [] w = (ls, w)"
| "add_logs cdc ls ((c, log_entry) # rest) w =
     (case add_log cdc ls c log_entry w of (r, ls1, w1) \<Rightarrow> add_logs cdc ls1 rest w1)"

text \<open>What the paths of a journal's files have in common: the directory and the prefix.\<close>

definition log_base :: "LogStore \<Rightarrow> string" where
  "log_base ls = path_join (directory ls) (prefix ls @ ''_'')"

text \<open>
  The first statement of \<open>get_current_store\<close>: the journal keeps its store when that is
  bound to the day's file, and binds a new one otherwise.
\<close>

definition phase1 ::
  "'b codec \<Rightarrow> LogStore \<Rightarrow> clock \<Rightarrow> 'b world \<Rightarrow> (error + JSONStore) \<times> LogStore \<times> 'b world" where
  "phase1 cdc ls c w =
     (case current_store ls of
        None \<Rightarrow> bind_store cdc ls (get_current_file_path ls c) c w
      | Some s \<Rightarrow> if file_path s \<noteq> get_current_file_path ls c
                 then bind_store cdc ls (get_current_file_path ls c) c w
                 else (Inr s, ls, w))"

text \<open>Two states of a journal with the same configuration.\<close>

definition same_config :: "LogStore \<Rightarrow> LogStore \<Rightarrow> bool" where
  "same_config ls ls' =
     (directory ls' = directory ls \<and> prefix ls' = prefix ls \<and>
      max_entries_per_file ls' = max_entries_per_file ls \<and> auto_rotate ls' = auto_rotate ls)"

text \<open>
  A file that is absent or holds a document; two worlds that agree outside a file and its
  temporary file.
\<close>

definition appendable :: "'b codec \<Rightarrow> 'b world \<Rightarrow> string \<Rightarrow> bool" where
  "appendable cdc w p = (fs_exists w p \<longrightarrow> doc_at cdc w p \<noteq> None)"

definition untouched :: "string \<Rightarrow> 'b world \<Rightarrow> 'b world \<Rightarrow> bool" where
  "untouched p w w' =
     (\<forall>q. q \<noteq> p \<longrightarrow> q \<noteq> p @ ''.tmp'' \<longrightarrow> map_of (files w') q = map_of (files w) q)"

text \<open>The file the next entry of a journal goes to.\<close>

definition target :: "'b codec \<Rightarrow> LogStore \<Rightarrow> clock \<Rightarrow> 'b world \<Rightarrow> string" where
  "target cdc ls c w =
     (if auto_rotate ls \<and>
         to_size_t (max_entries_per_file ls) \<le> length (file_entries cdc w (get_current_file_path ls c))
      then rotation_path ls c else get_current_file_path ls c)"

text \<open>
  A journal with two entries per file, and a file system in which the journal's file of
  the demo day holds two entries.
\<close>

definition demo_journal :: LogStore where
  "demo_journal = LogStore_init ''logs'' ''log'' 2 True"

definition full_world :: "json world" where
  "full_world = fs_put ''logs/log_20240102.json''
     \<lparr>content = [JArray [JInt 1, JInt 2]], mtime = 50\<rparr> empty_world"

text \<open>
  The calendar values of a clock reading, as lists ordered lexicographically; the range of
  the values that \<open>strftime\<close> prints in the fixed widths of the stamps.
\<close>

definition date_fields :: "clock \<Rightarrow> nat list" where
  "date_fields c = [year c, month c, mday c]"

definition clock_fields :: "clock \<Rightarrow> nat list" where
  "clock_fields c = [year c, month c, mday c, hour c, minute c, second c]"

definition in_range :: "clock \<Rightarrow> bool" where
  "in_range c =
     (year c < 10000 \<and> month c < 100 \<and> mday c < 100 \<and> hour c < 100 \<and> minute c < 100 \<and>
      second c < 100)"

text \<open>A directory with two files of the demo journal and one other file.\<close>

definition journal_world :: "json world" where
  "journal_world =
     empty_world\<lparr>files :=
       [(''logs/log_20240102_030407.json'', \<lparr>content = [JArray [JInt 3]], mtime = 300\<rparr>),
        (''logs/notes.txt'', \<lparr>content = [], mtime = 10\<rparr>),
        (''logs/log_20240102.json'', \<lparr>content = [JArray [JInt 1, JInt 2]], mtime = 200\<rparr>)]\<rparr>"

section \<open>Basic facts\<close>

lemma same_faults_refl [simp]: "same_faults w w"
  by (simp add: same_faults_def)

lemma same_faults_trans: "same_faults w w1 \<Longrightarrow> same_faults w1 w2 \<Longrightarrow> same_faults w w2"
  by (simp add: same_faults_def)

lemma same_faults_put [simp]: "same_faults w (fs_put p f w)"
  by (simp add: same_faults_def fs_put_def)

lemma same_faults_remove [simp]: "same_faults w (fs_remove p w)"
  by (simp add: same_faults_def fs_remove_def)

lemma temp_neq [simp]: "p @ ''.tmp'' \<noteq> p" "p \<noteq> p @ ''.tmp''"
  by auto

lemma files_put [simp]: "files (fs_put p f w) = AList.update p f (files w)"
  by (simp add: fs_put_def)

lemma files_remove [simp]: "files (fs_remove p w) = AList.delete p (files w)"
  by (simp add: fs_remove_def)

lemma faults_put [simp]:
  "wr_fail (fs_put p f w) = wr_fail w" "rd_fail (fs_put p f w) = rd_fail w"
  "mv_fail (fs_put p f w) = mv_fail w" "rm_fail (fs_put p f w) = rm_fail w"
  "cp_fail (fs_put p f w) = cp_fail w" "ls_fail (fs_put p f w) = ls_fail w"
  by (simp_all add: fs_put_def)

lemma faults_remove [simp]:
  "wr_fail (fs_remove p w) = wr_fail w" "rd_fail (fs_remove p w) = rd_fail w"
  "mv_fail (fs_remove p w) = mv_fail w" "rm_fail (fs_remove p w) = rm_fail w"
  "cp_fail (fs_remove p w) = cp_fail w" "ls_fail (fs_remove p w) = ls_fail w"
  by (simp_all add: fs_remove_def)

lemma write_attempt_Inr:
  "write_attempt cdc st c data w = Inr w2 \<longleftrightarrow>
     (\<not> wr_fail w (file_path st @ ''.tmp'') \<and> \<not> mv_fail w (file_path st) \<and>
      (\<exists>bs. dump cdc (indent st) data = Some bs \<and>
         w2 = fs_put (file_path st) \<lparr>content = bs, mtime = ticks c\<rparr>
                (fs_remove (file_path st @ ''.tmp'')
                  (fs_put (file_path st @ ''.tmp'') \<lparr>content = bs, mtime = ticks c\<rparr> w))))"
  by (auto simp: write_attempt_def Let_def fs_rename_def AList.update_conv' split: option.splits)

lemma write_attempt_Inl:
  "write_attempt cdc st c data w = Inl w1 \<Longrightarrow>
     same_faults w w1 \<and> map_of (files w1) (file_path st) = map_of (files w) (file_path st)"
  by (auto simp: write_attempt_def Let_def fs_rename_def AList.update_conv' split: option.splits if_splits)

lemma write_internal_ok:
  assumes "\<not> wr_fail w (file_path st @ ''.tmp'')" "\<not> mv_fail w (file_path st)"
    and "dump cdc (indent st) data = Some bs"
  shows "write_internal cdc st c data w =
     (Inr (), fs_put (file_path st) \<lparr>content = bs, mtime = ticks c\<rparr>
                (fs_remove (file_path st @ ''.tmp'')
                  (fs_put (file_path st @ ''.tmp'') \<lparr>content = bs, mtime = ticks c\<rparr> w)))"
proof -
  have "write_attempt cdc st c data w = Inr (fs_put (file_path st) \<lparr>content = bs, mtime = ticks c\<rparr>
                (fs_remove (file_path st @ ''.tmp'')
                  (fs_put (file_path st @ ''.tmp'') \<lparr>content = bs, mtime = ticks c\<rparr> w)))"
    using assms by (simp add: write_attempt_Inr)
  then show ?thesis by (simp add: write_internal_def)
qed

lemma write_internal_same_faults: "same_faults w (snd (write_internal cdc st c data w))"
proof (cases "write_attempt cdc st c data w")
  case (Inl w1)
  then have "same_faults w w1" by (simp add: write_attempt_Inl)
  with Inl show ?thesis
    by (auto simp: write_internal_def Let_def intro: same_faults_trans)
next
  case (Inr w2)
  then have "same_faults w w2"
    by (auto simp: write_attempt_Inr same_faults_def)
  with Inr show ?thesis
    by (simp add: write_internal_def)
qed


lemma filename_no_slash: "CHR ''/'' \<notin> set (filename p)"
  by (auto simp: filename_def dest: set_takeWhileD)

lemma name_extension_subset: "set (name_extension f) \<subseteq> set f"
  by (auto simp: name_extension_def Let_def dest: in_set_dropD)

lemma stem_no_slash: "CHR ''/'' \<notin> set (stem p)"
  using filename_no_slash[of p] by (auto simp: stem_def Let_def dest: in_set_takeD)

lemma extension_no_slash: "CHR ''/'' \<notin> set (extension p)"
  using filename_no_slash[of p] name_extension_subset[of "filename p"] by (auto simp: extension_def)

lemma digit_in: "digit n \<in> set ''0123456789''"
  unfolding digit_def by (rule nth_mem) simp

lemma digit_neq_slash [simp]: "digit n \<noteq> CHR ''/''" "CHR ''/'' \<noteq> digit n"
  using digit_in[of n] by auto

lemma stamp_no_slash: "CHR ''/'' \<notin> set (strftime_YmdHMS c)" "CHR ''/'' \<notin> set (strftime_Ymd c)"
  by (auto simp: strftime_YmdHMS_def strftime_Ymd_def dec2_def dec4_def)

lemma filename_append_name:
  assumes "CHR ''/'' \<notin> set n"
  shows "filename (d @ CHR ''/'' # n) = n"
proof -
  have "takeWhile (\<lambda>ch. ch \<noteq> CHR ''/'') (rev n @ CHR ''/'' # rev d) = rev n"
    using assms by (subst takeWhile_append2) auto
  then show ?thesis by (simp add: filename_def)
qed

lemma filename_plain:
  assumes "CHR ''/'' \<notin> set n"
  shows "filename n = n"
proof -
  have "takeWhile (\<lambda>ch. ch \<noteq> CHR ''/'') (rev n) = rev n"
    using assms by (auto simp: takeWhile_eq_all_conv)
  then show ?thesis unfolding filename_def by (simp only: rev_rev_ident)
qed

lemma filename_path_join:
  assumes "CHR ''/'' \<notin> set n"
  shows "filename (path_join d n) = n"
proof -
  have hd: "\<not> (n \<noteq> [] \<and> hd n = CHR ''/'')" using assms by (cases n) auto
  show ?thesis
  proof (cases "d = []")
    case True
    then show ?thesis using hd assms by (simp add: path_join_def filename_plain)
  next
    case False
    then obtain d' x where d: "d = d' @ [x]" by (metis rev_exhaust)
    show ?thesis
    proof (cases "x = CHR ''/''")
      case True
      then show ?thesis using hd d assms filename_append_name[of n d'] by (auto simp: path_join_def)
    next
      case False
      then show ?thesis using hd d assms filename_append_name[of n d] by (auto simp: path_join_def)
    qed
  qed
qed

lemma str_find_prefix: "str_find pat (pat @ s)"
proof (cases "pat @ s")
  case Nil
  then show ?thesis by simp
next
  case (Cons a list)
  have "take (length pat) (pat @ s) = pat" by simp
  with Cons show ?thesis by simp
qed

lemma filename_backup_path:
  "filename (backup_path st c) =
     backup_pattern st @ strftime_YmdHMS c @ extension (file_path st)"
  unfolding backup_path_def backup_pattern_def
  using stem_no_slash[of "file_path st"] extension_no_slash[of "file_path st"] stamp_no_slash(1)[of c]
  by (subst filename_path_join) auto

lemma backup_path_matches: "str_find (backup_pattern st) (filename (backup_path st c))"
  by (simp add: filename_backup_path str_find_prefix)

lemma backup_path_neq:
  "\<not> str_find (backup_pattern st) (filename (file_path st)) \<Longrightarrow> backup_path st c \<noteq> file_path st"
  using backup_path_matches[of st c] by auto

lemma keys_put: "map fst (files (fs_put p f w)) =
   (if p \<in> set (map fst (files w)) then map fst (files w) else map fst (files w) @ [p])"
  by (simp add: AList.update_keys)

lemma keys_remove: "map fst (files (fs_remove p w)) = removeAll p (map fst (files w))"
  by (simp add: AList.delete_keys)

lemma filter_removeAll: "[p \<leftarrow> removeAll a xs. p \<notin> set R] = [p \<leftarrow> xs. p \<notin> set (a # R)]"
  by (induction xs) auto

lemma same_faults_fold_remove: "same_faults w (fold remove_quiet R w)"
proof (induction R arbitrary: w)
  case Nil
  then show ?case by simp
next
  case (Cons p R)
  have "same_faults w (remove_quiet p w)" by (simp add: remove_quiet_def)
  then show ?case using Cons[of "remove_quiet p w"] by (auto intro: same_faults_trans)
qed


lemma keys_fold_remove:
  "\<forall>p. \<not> rm_fail w p \<Longrightarrow>
   map fst (files (fold remove_quiet R w)) = [p \<leftarrow> map fst (files w). p \<notin> set R]"
proof (induction R arbitrary: w)
  case Nil
  then show ?case by simp
next
  case (Cons a R)
  have "\<forall>p. \<not> rm_fail (fs_remove a w) p" using Cons.prems by simp
  then have "map fst (files (fold remove_quiet R (fs_remove a w))) = [p \<leftarrow> map fst (files (fs_remove a w)). p \<notin> set R]"
    by (rule Cons.IH)
  moreover have "remove_quiet a w = fs_remove a w"
    using Cons.prems by (simp add: remove_quiet_def)
  moreover have "[p \<leftarrow> removeAll a (map fst (files w)). p \<notin> set R] =
                 [p \<leftarrow> map fst (files w). p \<notin> set (a # R)]"
    by (rule filter_removeAll)
  ultimately show ?case by (simp add: keys_remove del: files_remove)
qed

lemma cleanup_ok:
  "\<not> ls_fail w (parent_path (file_path st)) \<Longrightarrow>
   cleanup_old_backups st w = (Inr (), fold remove_quiet (doomed st w) w)"
  by (simp add: cleanup_old_backups_def fs_list_def Let_def doomed_def backup_files_def)

lemma cleanup_same_faults: "same_faults w (snd (cleanup_old_backups st w))"
  by (auto simp: cleanup_old_backups_def Let_def same_faults_fold_remove split: option.splits)



lemma length_filter_not_dropped:
  assumes "mset xs = mset ys"
  shows "length [p \<leftarrow> xs. p \<notin> set (drop n ys)] \<le> n"
proof -
  let ?P = "\<lambda>p. p \<notin> set (drop n ys)"
  have "length (filter ?P xs) = size (filter_mset ?P (mset xs))" by (metis mset_filter size_mset)
  also have "\<dots> = length (filter ?P ys)" using assms by (metis mset_filter size_mset)
  also have "\<dots> = length (filter ?P (take n ys @ drop n ys))" by simp
  also have "\<dots> = length (filter ?P (take n ys)) + length (filter ?P (drop n ys))"
    by (simp only: filter_append length_append)
  also have "filter ?P (drop n ys) = []" by (simp add: filter_empty_conv)
  finally have "length (filter ?P xs) = length (filter ?P (take n ys))" by simp
  also have "\<dots> \<le> length (take n ys)" by (rule length_filter_le)
  also have "\<dots> \<le> n" by simp
  finally show ?thesis .
qed

lemma backups_after_cleanup:
  assumes "\<not> ls_fail w (parent_path (file_path st))" "\<forall>p. \<not> rm_fail w p"
  shows "backup_files st (snd (cleanup_old_backups st w)) =
         [p \<leftarrow> backup_files st w. p \<notin> set (doomed st w)]"
  using assms by (auto simp: cleanup_ok backup_files_def keys_fold_remove intro: filter_cong)

lemma cleanup_bound:
  assumes "\<not> ls_fail w (parent_path (file_path st))" "\<forall>p. \<not> rm_fail w p"
  shows "length (backup_files st (snd (cleanup_old_backups st w))) \<le> to_size_t (max_backups st)"
  unfolding backups_after_cleanup[OF assms] doomed_def
  by (rule length_filter_not_dropped) simp

lemma files_copy:
  "fs_copy_file src dst c w = Some w1 \<Longrightarrow>
   \<exists>f. map_of (files w) src = Some f \<and> w1 = fs_put dst \<lparr>content = content f, mtime = ticks c\<rparr> w"
  by (auto simp: fs_copy_file_def split: option.splits if_splits)

lemma create_backup_same_faults: "same_faults w (snd (create_backup st c w))"
proof (cases "fs_copy_file (file_path st) (backup_path st c) c w")
  case None
  then show ?thesis by (simp add: create_backup_def)
next
  case (Some w1)
  then have "same_faults w w1" by (auto dest: files_copy)
  moreover have "same_faults w1 (snd (cleanup_old_backups st w1))" by (rule cleanup_same_faults)
  ultimately have "same_faults w (snd (cleanup_old_backups st w1))" by (rule same_faults_trans)
  then show ?thesis using Some
    by (cases "cleanup_old_backups st w1") (auto simp: create_backup_def split: sum.splits)
qed


lemma create_backup_ok:
  assumes "fs_exists w (file_path st)" "\<not> cp_fail w (backup_path st c)"
    "\<not> ls_fail w (parent_path (file_path st))"
  shows "fst (create_backup st c w) = Inr (backup_path st c)"
proof -
  obtain f where f: "map_of (files w) (file_path st) = Some f"
    using assms(1) by (auto simp: fs_exists_def)
  let ?w1 = "fs_put (backup_path st c) \<lparr>content = content f, mtime = ticks c\<rparr> w"
  have "fs_copy_file (file_path st) (backup_path st c) c w = Some ?w1"
    using f assms(2) by (simp add: fs_copy_file_def)
  moreover have "cleanup_old_backups st ?w1 = (Inr (), fold remove_quiet (doomed st ?w1) ?w1)"
    using assms(3) by (simp add: cleanup_ok)
  ultimately show ?thesis using assms(1) by (simp add: create_backup_def)
qed

lemma to_size_t_le: "0 \<le> n \<Longrightarrow> int (to_size_t n) \<le> n"
proof -
  assume "0 \<le> n"
  then have "n mod 2 ^ 64 \<le> n" by (rule zmod_le_nonneg_dividend)
  then show ?thesis by (simp add: to_size_t_def)
qed

lemma create_backup_bound:
  assumes "\<not> ls_fail w (parent_path (file_path st))" "\<forall>p. \<not> rm_fail w p"
    and "int (length (backup_files st w)) \<le> max_backups st"
  shows "int (length (backup_files st (snd (create_backup st c w)))) \<le> max_backups st"
proof (cases "fs_copy_file (file_path st) (backup_path st c) c w")
  case None
  then show ?thesis using assms(3) by (simp add: create_backup_def)
next
  case (Some w1)
  then have sf: "same_faults w w1" by (auto dest: files_copy)
  have nn: "0 \<le> max_backups st" using assms(3) by linarith
  have "length (backup_files st (snd (cleanup_old_backups st w1))) \<le> to_size_t (max_backups st)"
    using sf assms(1,2) by (intro cleanup_bound) (auto simp: same_faults_def)
  then have "int (length (backup_files st (snd (cleanup_old_backups st w1)))) \<le> max_backups st"
    using to_size_t_le[OF nn] by linarith
  then show ?thesis using Some assms(3)
    by (cases "cleanup_old_backups st w1") (auto simp: create_backup_def split: sum.splits)
qed

lemma backup_files_put:
  "backup_files st (fs_put p f w) =
     (if p \<in> set (map fst (files w)) \<or>
         \<not> (p = path_join (parent_path (file_path st)) (filename p) \<and>
            str_find (backup_pattern st) (filename p))
      then backup_files st w else backup_files st w @ [p])"
  by (simp add: backup_files_def keys_put del: files_put)

lemma backup_files_remove:
  "backup_files st (fs_remove p w) = removeAll p (backup_files st w)"
  by (simp add: backup_files_def keys_remove removeAll_filter_not_eq del: files_remove) (metis (mono_tags, lifting) filter_cong)

lemma length_removeAll_le: "length (removeAll p xs) \<le> length xs"
  by (simp add: removeAll_filter_not_eq)

lemma backup_files_put_remove:
  "length (backup_files st (fs_remove p (fs_put p f w))) \<le> length (backup_files st w)"
  by (simp add: backup_files_remove backup_files_put length_removeAll_le del: files_put files_remove)

lemma backup_files_put_doc:
  "\<not> str_find (backup_pattern st) (filename p) \<Longrightarrow> backup_files st (fs_put p f w) = backup_files st w"
  by (simp add: backup_files_put)

lemma write_attempt_Inl_cases:
  "write_attempt cdc st c data w = Inl w1 \<Longrightarrow>
     w1 = w \<or> (\<exists>f. w1 = fs_put (file_path st @ ''.tmp'') f w)"
  by (auto simp: write_attempt_def Let_def split: option.splits if_splits)

lemma write_internal_backup_files:
  assumes "\<not> str_find (backup_pattern st) (filename (file_path st))"
    and "\<not> rm_fail w (file_path st @ ''.tmp'')"
  shows "length (backup_files st (snd (write_internal cdc st c data w))) \<le> length (backup_files st w)"
proof (cases "write_attempt cdc st c data w")
  case (Inr w2)
  then obtain f where "w2 = fs_put (file_path st) f (fs_remove (file_path st @ ''.tmp'') (fs_put (file_path st @ ''.tmp'') f w))"
    by (auto simp: write_attempt_Inr)
  then have "length (backup_files st w2) \<le> length (backup_files st w)"
    using assms(1) by (simp add: backup_files_put_doc backup_files_put_remove del: files_put files_remove)
  then show ?thesis using Inr by (simp add: write_internal_def)
next
  case (Inl w1)
  let ?tmp = "file_path st @ ''.tmp''"
  from Inl have sf: "same_faults w w1" by (simp add: write_attempt_Inl)
  then have nrm: "\<not> rm_fail w1 ?tmp" using assms(2) by (simp add: same_faults_def)
  from Inl consider "w1 = w" | f where "w1 = fs_put ?tmp f w"
    using write_attempt_Inl_cases by blast
  then show ?thesis
  proof cases
    case 1
    then show ?thesis using Inl nrm
      by (simp add: write_internal_def Let_def backup_files_remove length_removeAll_le del: files_remove)
  next
    case 2
    have "fs_exists w1 ?tmp" using 2 by (simp add: fs_exists_def AList.update_conv')
    then show ?thesis using Inl nrm 2
      by (simp add: write_internal_def Let_def backup_files_put_remove del: files_put files_remove)
  qed
qed

lemma write_same_faults: "same_faults w (snd (JSONStore_write cdc st c data validate w))"
proof -
  have a: "same_faults w (snd (create_backup st c w))" by (rule create_backup_same_faults)
  have b: "\<And>w1. same_faults w w1 \<Longrightarrow> same_faults w (snd (write_internal cdc st c data w1))"
    using write_internal_same_faults same_faults_trans by blast
  show ?thesis using a b[of w] b[of "snd (create_backup st c w)"]
    by (cases "create_backup st c w") (auto simp: JSONStore_write_def split: sum.splits)
qed

lemma update_same_faults: "same_faults w (snd (JSONStore_update cdc st c f w))"
  using write_internal_same_faults[of w cdc st c]
  by (auto simp: JSONStore_update_def Let_def split: sum.splits prod.splits) (metis snd_conv)+

lemma delete_same_faults: "same_faults w (snd (JSONStore_delete_file st c b w))"
  using create_backup_same_faults[of w st c]
  by (cases "create_backup st c w") (auto simp: JSONStore_delete_file_def same_faults_def split: sum.splits)

lemma write_internal_Inr:
  assumes "fst (write_internal cdc st c data w) = Inr u"
  shows "\<exists>bs. dump cdc (indent st) data = Some bs \<and>
     map_of (files (snd (write_internal cdc st c data w))) (file_path st) =
       Some \<lparr>content = bs, mtime = ticks c\<rparr>"
proof -
  obtain w2 where a: "write_attempt cdc st c data w = Inr w2"
    using assms by (cases "write_attempt cdc st c data w") (auto simp: write_internal_def Let_def)
  then obtain bs where "dump cdc (indent st) data = Some bs"
    and "w2 = fs_put (file_path st) \<lparr>content = bs, mtime = ticks c\<rparr>
                (fs_remove (file_path st @ ''.tmp'')
                  (fs_put (file_path st @ ''.tmp'') \<lparr>content = bs, mtime = ticks c\<rparr> w))"
    by (auto simp: write_attempt_Inr)
  then show ?thesis using a by (simp add: write_internal_def AList.update_conv')
qed

lemma write_Inr:
  assumes "fst (JSONStore_write cdc st c data validate w) = Inr u"
  shows "\<exists>bs. dump cdc (indent st) data = Some bs \<and>
     map_of (files (snd (JSONStore_write cdc st c data validate w))) (file_path st) =
       Some \<lparr>content = bs, mtime = ticks c\<rparr>"
proof -
  define r where "r = (if auto_backup st \<and> fs_exists w (file_path st)
                 then create_backup st c w else (Inr [], w))"
  have nv: "\<not> (validate \<and> rejects st data)"
    using assms by (auto simp: JSONStore_write_def)
  have "\<exists>x. fst r = Inr x"
    using assms nv unfolding JSONStore_write_def r_def[symmetric]
    by (cases r; cases "fst r") auto
  then have "JSONStore_write cdc st c data validate w = write_internal cdc st c data (snd r)"
    using nv unfolding JSONStore_write_def r_def[symmetric] by (cases r) auto
  then show ?thesis using assms write_internal_Inr[of cdc st c data "snd r" u] by simp
qed

lemma write_ok:
  assumes "\<not> (validate \<and> rejects st data)"
    and "\<not> wr_fail w (file_path st @ ''.tmp'')" "\<not> mv_fail w (file_path st)"
    and "dump cdc (indent st) data = Some bs"
    and "auto_backup st \<and> fs_exists w (file_path st) \<longrightarrow>
           \<not> cp_fail w (backup_path st c) \<and> \<not> ls_fail w (parent_path (file_path st))"
  shows "fst (JSONStore_write cdc st c data validate w) = Inr ()"
proof -
  define r where "r = (if auto_backup st \<and> fs_exists w (file_path st)
                 then create_backup st c w else (Inr [], w))"
  have sf: "same_faults w (snd r)" by (simp add: r_def create_backup_same_faults)
  have "\<exists>x. fst r = Inr x" using assms(5) by (auto simp: r_def create_backup_ok)
  then have eq: "JSONStore_write cdc st c data validate w = write_internal cdc st c data (snd r)"
    using assms(1) unfolding JSONStore_write_def r_def[symmetric] by (cases r) auto
  have "\<not> wr_fail (snd r) (file_path st @ ''.tmp'')" "\<not> mv_fail (snd r) (file_path st)"
    using sf assms(2,3) by (simp_all add: same_faults_def)
  then show ?thesis using eq assms(4) by (simp add: write_internal_ok)
qed

lemma update_ok:
  assumes "current_data cdc st w = Inr d"
    and "\<not> wr_fail w (file_path st @ ''.tmp'')" "\<not> mv_fail w (file_path st)"
    and "dump cdc (indent st) (update_func d) = Some bs"
  shows "JSONStore_update cdc st c update_func w =
     (Inr (update_func d),
      fs_put (file_path st) \<lparr>content = bs, mtime = ticks c\<rparr>
        (fs_remove (file_path st @ ''.tmp'')
          (fs_put (file_path st @ ''.tmp'') \<lparr>content = bs, mtime = ticks c\<rparr> w)))"
  using assms by (simp add: JSONStore_update_def write_internal_ok)

lemma remove_func_absent:
  "\<not> is_array d \<or> item \<notin> set (elems d) \<Longrightarrow> remove_func item d = d"
  by (cases d) (auto simp: remove_func_def remove1_idem)

lemma write_bound:
  assumes ls: "\<not> ls_fail w (parent_path (file_path st))" and rm: "\<forall>p. \<not> rm_fail w p"
    and nm: "\<not> str_find (backup_pattern st) (filename (file_path st))"
    and inv: "int (length (backup_files st w)) \<le> max_backups st"
  shows "int (length (backup_files st (snd (JSONStore_write cdc st c data validate w)))) \<le> max_backups st"
proof -
  define r where "r = (if auto_backup st \<and> fs_exists w (file_path st)
                 then create_backup st c w else (Inr [], w))"
  have sf: "same_faults w (snd r)" by (simp add: r_def create_backup_same_faults)
  have b: "int (length (backup_files st (snd r))) \<le> max_backups st"
    using create_backup_bound[OF ls rm inv] inv by (simp add: r_def)
  have "\<not> rm_fail (snd r) (file_path st @ ''.tmp'')" using sf rm by (simp add: same_faults_def)
  then have "length (backup_files st (snd (write_internal cdc st c data (snd r)))) \<le>
             length (backup_files st (snd r))"
    using nm by (intro write_internal_backup_files)
  then have wi: "int (length (backup_files st (snd (write_internal cdc st c data (snd r))))) \<le> max_backups st"
    using b by linarith
  have "snd (JSONStore_write cdc st c data validate w) \<in>
          {w, snd r, snd (write_internal cdc st c data (snd r))}"
    unfolding JSONStore_write_def r_def[symmetric] by (cases r; cases "fst r") auto
  then show ?thesis using inv b wi by auto
qed

lemma update_bound:
  assumes rm: "\<forall>p. \<not> rm_fail w p"
    and nm: "\<not> str_find (backup_pattern st) (filename (file_path st))"
    and inv: "int (length (backup_files st w)) \<le> max_backups st"
  shows "int (length (backup_files st (snd (JSONStore_update cdc st c f w)))) \<le> max_backups st"
proof (cases "current_data cdc st w")
  case (Inl e)
  then show ?thesis using inv by (simp add: JSONStore_update_def)
next
  case (Inr d)
  have "length (backup_files st (snd (write_internal cdc st c (f d) w))) \<le> length (backup_files st w)"
    using nm rm by (intro write_internal_backup_files) auto
  moreover have "snd (JSONStore_update cdc st c f w) = snd (write_internal cdc st c (f d) w)"
    using Inr by (cases "write_internal cdc st c (f d) w")
      (auto simp: JSONStore_update_def Let_def split: sum.splits)
  ultimately show ?thesis using inv by simp
qed

lemma delete_bound:
  assumes ls: "\<not> ls_fail w (parent_path (file_path st))" and rm: "\<forall>p. \<not> rm_fail w p"
    and inv: "int (length (backup_files st w)) \<le> max_backups st"
  shows "int (length (backup_files st (snd (JSONStore_delete_file st c b w)))) \<le> max_backups st"
proof -
  define r where "r = (if b then create_backup st c w else (Inr [], w))"
  have bd: "int (length (backup_files st (snd r))) \<le> max_backups st"
    using create_backup_bound[OF ls rm inv] inv by (simp add: r_def)
  have "length (backup_files st (fs_remove (file_path st) (snd r))) \<le> length (backup_files st (snd r))"
    by (simp add: backup_files_remove length_removeAll_le del: files_remove)
  then have rmv: "int (length (backup_files st (fs_remove (file_path st) (snd r)))) \<le> max_backups st"
    using bd by linarith
  have "snd (JSONStore_delete_file st c b w) \<in> {w, snd r, fs_remove (file_path st) (snd r)}"
    unfolding JSONStore_delete_file_def r_def[symmetric] by (cases r; cases "fst r") auto
  then show ?thesis using inv bd rmv by auto
qed

lemma apply_op_same_faults: "same_faults w (apply_op cdc st cop w)"
proof (cases cop)
  case (Pair c op)
  then show ?thesis
    by (cases op) (simp_all add: write_same_faults update_same_faults delete_same_faults)
qed

lemma apply_op_bound:
  assumes "\<not> ls_fail w (parent_path (file_path st))" "\<forall>p. \<not> rm_fail w p"
    and "\<not> str_find (backup_pattern st) (filename (file_path st))"
    and "int (length (backup_files st w)) \<le> max_backups st"
  shows "int (length (backup_files st (apply_op cdc st cop w))) \<le> max_backups st"
proof (cases cop)
  case (Pair c op)
  then show ?thesis using assms
    by (cases op) (simp_all add: write_bound update_bound delete_bound)
qed

lemma run_ops_bound:
  assumes "\<not> ls_fail w (parent_path (file_path st))" "\<forall>p. \<not> rm_fail w p"
    and "\<not> str_find (backup_pattern st) (filename (file_path st))"
    and "int (length (backup_files st w)) \<le> max_backups st"
  shows "int (length (backup_files st (run_ops cdc st ops w))) \<le> max_backups st"
  using assms
proof (induction ops arbitrary: w)
  case Nil
  then show ?case by (simp add: run_ops_def)
next
  case (Cons cop ops)
  let ?w = "apply_op cdc st cop w"
  have sf: "same_faults w ?w" by (rule apply_op_same_faults)
  have "int (length (backup_files st (run_ops cdc st ops ?w))) \<le> max_backups st"
  proof (rule Cons.IH)
    show "\<not> ls_fail ?w (parent_path (file_path st))" using sf Cons.prems(1) by (simp add: same_faults_def)
    show "\<forall>p. \<not> rm_fail ?w p" using sf Cons.prems(2) by (simp add: same_faults_def)
    show "\<not> str_find (backup_pattern st) (filename (file_path st))" by (rule Cons.prems(3))
    show "int (length (backup_files st ?w)) \<le> max_backups st"
      using Cons.prems by (intro apply_op_bound)
  qed
  then show ?case by (simp add: run_ops_def)
qed

lemma create_backup_pruned:
  assumes "map_of (files w) (file_path st) = Some f" "\<not> cp_fail w (backup_path st c)"
    and "\<not> ls_fail w (parent_path (file_path st))" "\<forall>p. \<not> rm_fail w p"
    and "w1 = fs_put (backup_path st c) \<lparr>content = content f, mtime = ticks c\<rparr> w"
  shows "create_backup st c w = (Inr (backup_path st c), fold remove_quiet (doomed st w1) w1)"
    and "backup_files st (snd (create_backup st c w)) = [p \<leftarrow> backup_files st w1. p \<notin> set (doomed st w1)]"
    and "length (backup_files st (snd (create_backup st c w))) \<le> to_size_t (max_backups st)"
proof -
  have cp: "fs_copy_file (file_path st) (backup_path st c) c w = Some w1"
    using assms(1,2,5) by (simp add: fs_copy_file_def)
  have ls1: "\<not> ls_fail w1 (parent_path (file_path st))" and rm1: "\<forall>p. \<not> rm_fail w1 p"
    using assms(3,4,5) by simp_all
  have ex: "fs_exists w (file_path st)" using assms(1) by (simp add: fs_exists_def)
  show a: "create_backup st c w = (Inr (backup_path st c), fold remove_quiet (doomed st w1) w1)"
    using cp ex ls1 by (simp add: create_backup_def cleanup_ok)
  have s: "snd (create_backup st c w) = snd (cleanup_old_backups st w1)"
    using a ls1 by (simp add: cleanup_ok)
  show "backup_files st (snd (create_backup st c w)) = [p \<leftarrow> backup_files st w1. p \<notin> set (doomed st w1)]"
    unfolding s by (rule backups_after_cleanup[OF ls1 rm1])
  show "length (backup_files st (snd (create_backup st c w))) \<le> to_size_t (max_backups st)"
    unfolding s by (rule cleanup_bound[OF ls1 rm1])
qed

lemma write_internal_footprint:
  assumes "q \<noteq> file_path st" "q \<noteq> file_path st @ ''.tmp''"
  shows "map_of (files (snd (write_internal cdc st c data w))) q = map_of (files w) q"
proof (cases "write_attempt cdc st c data w")
  case (Inr w2)
  then obtain f where "w2 = fs_put (file_path st) f
      (fs_remove (file_path st @ ''.tmp'') (fs_put (file_path st @ ''.tmp'') f w))"
    by (auto simp: write_attempt_Inr)
  then have "map_of (files w2) q = map_of (files w) q"
    using assms by (simp add: AList.update_conv' AList.delete_conv')
  with Inr show ?thesis by (simp add: write_internal_def)
next
  case (Inl w1)
  then have "w1 = w \<or> (\<exists>f. w1 = fs_put (file_path st @ ''.tmp'') f w)"
    by (rule write_attempt_Inl_cases)
  then have "map_of (files w1) q = map_of (files w) q"
    using assms by (auto simp: AList.update_conv')
  then show ?thesis using Inl assms
    by (auto simp: write_internal_def Let_def AList.delete_conv')
qed

lemma init_result:
  "fst (ListJSONStore_init cdc p kw c w) = Inr s \<Longrightarrow> s = list_store p"
  by (cases "write_internal cdc (list_store p) c (JObject []) w")
    (auto simp: ListJSONStore_init_def JSONStore_init_def Let_def list_store_def
      split: if_splits sum.splits)

lemma init_world:
  "snd (ListJSONStore_init cdc p kw c w) =
     (if fs_exists w p then w else snd (write_internal cdc (list_store p) c (JObject []) w))"
  by (cases "write_internal cdc (list_store p) c (JObject []) w")
    (auto simp: ListJSONStore_init_def JSONStore_init_def Let_def list_store_def
      split: if_splits sum.splits)

lemma init_existing:
  "fs_exists w p \<Longrightarrow> ListJSONStore_init cdc p kw c w = (Inr (list_store p), w)"
  by (simp add: ListJSONStore_init_def JSONStore_init_def Let_def list_store_def)

lemma file_path_list_store [simp]: "file_path (list_store p) = p" "indent (list_store p) = 2"
  by (simp_all add: list_store_def)

lemma init_footprint:
  assumes "q \<noteq> p" "q \<noteq> p @ ''.tmp''"
  shows "map_of (files (snd (ListJSONStore_init cdc p kw c w))) q = map_of (files w) q"
  using assms write_internal_footprint[of q "list_store p" cdc c "JObject []" w]
  by (simp add: init_world)

lemma init_same_faults: "same_faults w (snd (ListJSONStore_init cdc p kw c w))"
  by (simp add: init_world write_internal_same_faults)

lemma update_world:
  "snd (JSONStore_update cdc st c f w) = w \<or>
   (\<exists>d. snd (JSONStore_update cdc st c f w) = snd (write_internal cdc st c d w))"
proof (cases "current_data cdc st w")
  case (Inl e)
  then show ?thesis by (simp add: JSONStore_update_def)
next
  case (Inr d)
  then have "snd (JSONStore_update cdc st c f w) = snd (write_internal cdc st c (f d) w)"
    by (cases "write_internal cdc st c (f d) w")
      (auto simp: JSONStore_update_def Let_def split: sum.splits)
  then show ?thesis by blast
qed

lemma update_footprint:
  assumes "q \<noteq> file_path st" "q \<noteq> file_path st @ ''.tmp''"
  shows "map_of (files (snd (JSONStore_update cdc st c f w))) q = map_of (files w) q"
  using update_world[of cdc st c f w] write_internal_footprint[OF assms] by auto

lemma append_world:
  "snd (ListJSONStore_append cdc st c item w) = snd (JSONStore_update cdc st c (append_func item) w)"
  by (cases "JSONStore_update cdc st c (append_func item) w")
    (auto simp: ListJSONStore_append_def split: sum.splits)

lemma append_footprint:
  assumes "q \<noteq> file_path st" "q \<noteq> file_path st @ ''.tmp''"
  shows "map_of (files (snd (ListJSONStore_append cdc st c item w))) q = map_of (files w) q"
  using update_footprint[OF assms] by (simp add: append_world)

lemma append_same_faults: "same_faults w (snd (ListJSONStore_append cdc st c item w))"
  by (simp add: append_world update_same_faults)

lemma bind_store_cases:
  "bind_store cdc ls p c w = (r, ls1, w1) \<Longrightarrow>
     w1 = snd (ListJSONStore_init cdc p [] c w) \<and>
     ((\<exists>e. r = Inl e \<and> ls1 = ls) \<or>
      (r = Inr (list_store p) \<and> ls1 = ls\<lparr>current_store := Some (list_store p)\<rparr>))"
  using init_result[of cdc p "[]" c w]
  by (cases "ListJSONStore_init cdc p [] c w")
    (auto simp: bind_store_def split: sum.splits)

lemma path_join_append: "a \<noteq> [] \<Longrightarrow> path_join d (a @ b) = path_join d a @ b"
  by (cases a) (auto simp: path_join_def)

lemma daily_path: "get_current_file_path ls c = log_base ls @ strftime_Ymd c @ ''.json''"
  using path_join_append[of "prefix ls @ ''_''" "directory ls" "strftime_Ymd c @ ''.json''"]
  by (simp add: get_current_file_path_def log_base_def)

lemma rot_path: "rotation_path ls c = log_base ls @ strftime_YmdHMS c @ ''.json''"
  using path_join_append[of "prefix ls @ ''_''" "directory ls" "strftime_YmdHMS c @ ''.json''"]
  by (simp add: rotation_path_def log_base_def)

lemma length_stamps [simp]: "length (strftime_Ymd c) = 8" "length (strftime_YmdHMS c) = 15"
  by (simp_all add: strftime_Ymd_def strftime_YmdHMS_def dec2_def dec4_def)

lemma length_daily: "length (get_current_file_path ls c) = length (log_base ls) + 13"
  by (simp add: daily_path)

lemma length_rot: "length (rotation_path ls c) = length (log_base ls) + 20"
  by (simp add: rot_path)

lemma log_paths_distinct:
  "get_current_file_path ls c \<noteq> rotation_path ls c'"
  "get_current_file_path ls c \<noteq> rotation_path ls c' @ ''.tmp''"
  "get_current_file_path ls c \<noteq> get_current_file_path ls c' @ ''.tmp''"
  "rotation_path ls c \<noteq> get_current_file_path ls c' @ ''.tmp''"
  "rotation_path ls c \<noteq> rotation_path ls c' @ ''.tmp''"
proof -
  have *: "\<And>x y :: string. length x \<noteq> length y \<Longrightarrow> x \<noteq> y" by auto
  show "get_current_file_path ls c \<noteq> rotation_path ls c'"
    by (rule *) (simp add: length_daily length_rot)
  show "get_current_file_path ls c \<noteq> rotation_path ls c' @ ''.tmp''"
    by (rule *) (simp add: length_daily length_rot)
  show "get_current_file_path ls c \<noteq> get_current_file_path ls c' @ ''.tmp''"
    by (rule *) (simp add: length_daily)
  show "rotation_path ls c \<noteq> get_current_file_path ls c' @ ''.tmp''"
    by (rule *) (simp add: length_daily length_rot)
  show "rotation_path ls c \<noteq> rotation_path ls c' @ ''.tmp''"
    by (rule *) (simp add: length_rot)
qed

lemma read_doc:
  "doc_at cdc w (file_path s) = Some d \<Longrightarrow> JSONStore_read cdc s dflt w = Inr d"
  by (auto simp: doc_at_def JSONStore_read_def read_body_def split: option.splits if_splits)

lemma read_absent:
  "\<not> fs_exists w (file_path s) \<Longrightarrow> dflt \<noteq> JNull \<Longrightarrow> JSONStore_read cdc s dflt w = Inr dflt"
  by (cases dflt) (auto simp: fs_exists_def JSONStore_read_def read_body_def)

lemma length_elems: "(if is_array d then length (elems d) else 0) = length (elems d)"
  by (cases d) auto

lemma length_doc:
  "doc_at cdc w (file_path s) = Some d \<Longrightarrow> ListJSONStore_length cdc s w = Inr (length (elems d))"
  by (simp add: ListJSONStore_length_def read_doc length_elems)

lemma length_absent:
  "\<not> fs_exists w (file_path s) \<Longrightarrow> ListJSONStore_length cdc s w = Inr 0"
  by (simp add: ListJSONStore_length_def read_absent)

lemma doc_at_exists: "doc_at cdc w p = Some d \<Longrightarrow> fs_exists w p"
  by (auto simp: doc_at_def fs_exists_def split: option.splits)

lemma bind_store_fields:
  assumes "bind_store cdc ls p c w = (r, ls1, w1)"
  shows "directory ls1 = directory ls" "prefix ls1 = prefix ls"
    "max_entries_per_file ls1 = max_entries_per_file ls" "auto_rotate ls1 = auto_rotate ls"
  using bind_store_cases[OF assms] by auto

lemma phase1_cases:
  assumes "phase1 cdc ls c w = (r, ls1, w1)"
  shows "(w1 = w \<or> w1 = snd (ListJSONStore_init cdc (get_current_file_path ls c) [] c w)) \<and>
         (\<forall>s. r = Inr s \<longrightarrow> file_path s = get_current_file_path ls c) \<and>
         directory ls1 = directory ls \<and> prefix ls1 = prefix ls \<and>
         max_entries_per_file ls1 = max_entries_per_file ls \<and> auto_rotate ls1 = auto_rotate ls"
proof (cases "\<exists>s. current_store ls = Some s \<and> file_path s = get_current_file_path ls c")
  case True
  then show ?thesis using assms by (auto simp: phase1_def)
next
  case False
  then have "bind_store cdc ls (get_current_file_path ls c) c w = (r, ls1, w1)"
    using assms by (auto simp: phase1_def split: option.splits if_splits)
  from bind_store_cases[OF this] show ?thesis by auto
qed

lemma gcs_unfold:
  "get_current_store cdc ls c w =
     (case phase1 cdc ls c w of
        (Inl e, ls1, w1) \<Rightarrow> (Inl e, ls1, w1)
      | (Inr s, ls1, w1) \<Rightarrow>
          if auto_rotate ls1
          then (case ListJSONStore_length cdc s w1 of
                  Inl e \<Rightarrow> (Inl e, ls1, w1)
                | Inr n \<Rightarrow>
                    if n \<ge> to_size_t (max_entries_per_file ls1) then rotate cdc ls1 c w1
                    else (Inr s, ls1, w1))
          else (Inr s, ls1, w1))"
  by (simp add: get_current_store_def phase1_def Let_def)

lemma gcs_cases:
  assumes "get_current_store cdc ls c w = (r, ls2, w2)"
  shows "\<exists>r1 ls1 w1. phase1 cdc ls c w = (r1, ls1, w1) \<and>
     ((\<exists>e. r = Inl e \<and> w2 = w1 \<and> ls2 = ls1) \<or>
      (\<exists>s. r1 = Inr s \<and> r = Inr s \<and> w2 = w1 \<and> ls2 = ls1 \<and>
           (auto_rotate ls \<longrightarrow> (\<exists>n. ListJSONStore_length cdc s w1 = Inr n \<and>
              n < to_size_t (max_entries_per_file ls)))) \<or>
      (\<exists>s n. r1 = Inr s \<and> auto_rotate ls \<and> ListJSONStore_length cdc s w1 = Inr n \<and>
           n \<ge> to_size_t (max_entries_per_file ls) \<and>
           rotate cdc ls1 c w1 = (r, ls2, w2)))"
proof -
  obtain r1 ls1 w1 where p: "phase1 cdc ls c w = (r1, ls1, w1)" by (cases "phase1 cdc ls c w") auto
  from phase1_cases[OF p] have f: "max_entries_per_file ls1 = max_entries_per_file ls"
    "auto_rotate ls1 = auto_rotate ls" by auto
  show ?thesis using assms p f
    by (auto simp: gcs_unfold split: sum.splits if_splits)
qed

lemma phase1_same_faults:
  "phase1 cdc ls c w = (r, ls1, w1) \<Longrightarrow> same_faults w w1"
  using phase1_cases[of cdc ls c w r ls1 w1] init_same_faults[of w cdc "get_current_file_path ls c" "[]" c]
  by auto

lemma phase1_footprint:
  assumes "phase1 cdc ls c w = (r, ls1, w1)"
    and "q \<noteq> get_current_file_path ls c" "q \<noteq> get_current_file_path ls c @ ''.tmp''"
  shows "map_of (files w1) q = map_of (files w) q"
  using phase1_cases[OF assms(1)] init_footprint[OF assms(2,3)] by auto

lemma phase1_existing:
  assumes "phase1 cdc ls c w = (r, ls1, w1)" "fs_exists w (get_current_file_path ls c)"
  shows "w1 = w"
  using phase1_cases[OF assms(1)] assms(2) by (auto simp: init_world)

lemma rotate_cases:
  assumes "rotate cdc ls1 c w1 = (r, ls2, w2)"
  shows "w2 = snd (ListJSONStore_init cdc (rotation_path ls1 c) [] c w1)"
    and "r = Inr s \<Longrightarrow> s = list_store (rotation_path ls1 c)"
    and "directory ls2 = directory ls1 \<and> prefix ls2 = prefix ls1 \<and>
         max_entries_per_file ls2 = max_entries_per_file ls1 \<and> auto_rotate ls2 = auto_rotate ls1"
proof -
  have b: "bind_store cdc ls1 (rotation_path ls1 c) c w1 = (r, ls2, w2)"
    using assms by (simp only: rotate_def)
  note bc = bind_store_cases[OF b]
  show "w2 = snd (ListJSONStore_init cdc (rotation_path ls1 c) [] c w1)"
    using bc by (rule conjunct1)
  show "s = list_store (rotation_path ls1 c)" if "r = Inr s"
    using bc that by blast
  show "directory ls2 = directory ls1 \<and> prefix ls2 = prefix ls1 \<and>
         max_entries_per_file ls2 = max_entries_per_file ls1 \<and> auto_rotate ls2 = auto_rotate ls1"
    by (rule conjI[OF bind_store_fields(1)[OF b] conjI[OF bind_store_fields(2)[OF b]
          conjI[OF bind_store_fields(3)[OF b] bind_store_fields(4)[OF b]]]])
qed

lemma gcs_spec:
  assumes g: "get_current_store cdc ls c w = (r, ls2, w2)"
  shows "directory ls2 = directory ls \<and> prefix ls2 = prefix ls \<and>
         max_entries_per_file ls2 = max_entries_per_file ls \<and> auto_rotate ls2 = auto_rotate ls"
    and "same_faults w w2"
    and "q \<noteq> get_current_file_path ls c \<Longrightarrow> q \<noteq> get_current_file_path ls c @ ''.tmp'' \<Longrightarrow>
         q \<noteq> rotation_path ls c \<Longrightarrow> q \<noteq> rotation_path ls c @ ''.tmp'' \<Longrightarrow>
         map_of (files w2) q = map_of (files w) q"
    and "r = Inr s \<Longrightarrow> file_path s = get_current_file_path ls c \<or> file_path s = rotation_path ls c"
proof -
  from gcs_cases[OF g] obtain r1 ls1 w1 where p: "phase1 cdc ls c w = (r1, ls1, w1)"
    and alt: "(\<exists>e. r = Inl e \<and> w2 = w1 \<and> ls2 = ls1) \<or>
      (\<exists>s. r1 = Inr s \<and> r = Inr s \<and> w2 = w1 \<and> ls2 = ls1 \<and>
           (auto_rotate ls \<longrightarrow> (\<exists>n. ListJSONStore_length cdc s w1 = Inr n \<and>
              n < to_size_t (max_entries_per_file ls)))) \<or>
      (\<exists>s n. r1 = Inr s \<and> auto_rotate ls \<and> ListJSONStore_length cdc s w1 = Inr n \<and>
           n \<ge> to_size_t (max_entries_per_file ls) \<and>
           rotate cdc ls1 c w1 = (r, ls2, w2))" by blast
  note p1 = phase1_cases[OF p]
  have f1: "directory ls1 = directory ls \<and> prefix ls1 = prefix ls \<and>
         max_entries_per_file ls1 = max_entries_per_file ls \<and> auto_rotate ls1 = auto_rotate ls"
    using p1 by blast
  have rp: "rotation_path ls1 c = rotation_path ls c"
    using f1 by (simp add: rotation_path_def)
  have sf1: "same_faults w w1" by (rule phase1_same_faults[OF p])
  have s1: "\<forall>s. r1 = Inr s \<longrightarrow> file_path s = get_current_file_path ls c"
    using p1 by blast
  from alt consider (stay) "w2 = w1" "ls2 = ls1" "\<forall>s. r = Inr s \<longrightarrow> r1 = Inr s"
    | (rot) "rotate cdc ls1 c w1 = (r, ls2, w2)"
    by blast
  then have "(directory ls2 = directory ls \<and> prefix ls2 = prefix ls \<and>
         max_entries_per_file ls2 = max_entries_per_file ls \<and> auto_rotate ls2 = auto_rotate ls) \<and>
      same_faults w w2 \<and>
      (q \<noteq> get_current_file_path ls c \<longrightarrow> q \<noteq> get_current_file_path ls c @ ''.tmp'' \<longrightarrow>
         q \<noteq> rotation_path ls c \<longrightarrow> q \<noteq> rotation_path ls c @ ''.tmp'' \<longrightarrow>
         map_of (files w2) q = map_of (files w) q) \<and>
      (\<forall>s. r = Inr s \<longrightarrow> file_path s = get_current_file_path ls c \<or> file_path s = rotation_path ls c)"
  proof cases
    case stay
    have "q \<noteq> get_current_file_path ls c \<longrightarrow> q \<noteq> get_current_file_path ls c @ ''.tmp'' \<longrightarrow>
          map_of (files w1) q = map_of (files w) q"
      using phase1_footprint[OF p] by blast
    then show ?thesis unfolding stay(1,2) using f1 sf1 s1 stay(3) by blast
  next
    case rot
    note rc = rotate_cases[OF rot]
    have w2: "w2 = snd (ListJSONStore_init cdc (rotation_path ls c) [] c w1)"
      using rc(1) unfolding rp .
    have a: "directory ls2 = directory ls \<and> prefix ls2 = prefix ls \<and>
         max_entries_per_file ls2 = max_entries_per_file ls \<and> auto_rotate ls2 = auto_rotate ls"
      using rc(3) f1 by metis
    have b: "same_faults w w2"
      unfolding w2 using sf1 init_same_faults by (rule same_faults_trans)
    have c: "map_of (files w2) q = map_of (files w) q"
      if "q \<noteq> get_current_file_path ls c" "q \<noteq> get_current_file_path ls c @ ''.tmp''"
         "q \<noteq> rotation_path ls c" "q \<noteq> rotation_path ls c @ ''.tmp''"
    proof -
      have "map_of (files w2) q = map_of (files w1) q"
        unfolding w2 using that(3,4) by (rule init_footprint)
      also have "\<dots> = map_of (files w) q" using p that(1,2) by (rule phase1_footprint)
      finally show ?thesis .
    qed
    have d: "\<forall>s. r = Inr s \<longrightarrow> file_path s = rotation_path ls c"
      using rc(2) unfolding rp by (metis file_path_list_store(1))
    show ?thesis using a b c d by blast
  qed
  then show "directory ls2 = directory ls \<and> prefix ls2 = prefix ls \<and>
         max_entries_per_file ls2 = max_entries_per_file ls \<and> auto_rotate ls2 = auto_rotate ls"
    and "same_faults w w2"
    and "q \<noteq> get_current_file_path ls c \<Longrightarrow> q \<noteq> get_current_file_path ls c @ ''.tmp'' \<Longrightarrow>
         q \<noteq> rotation_path ls c \<Longrightarrow> q \<noteq> rotation_path ls c @ ''.tmp'' \<Longrightarrow>
         map_of (files w2) q = map_of (files w) q"
    and "r = Inr s \<Longrightarrow> file_path s = get_current_file_path ls c \<or> file_path s = rotation_path ls c"
    by blast+
qed

lemma gcs_full:
  assumes g: "get_current_store cdc ls c w = (r, ls2, w2)"
    and ar: "auto_rotate ls" and d: "doc_at cdc w (get_current_file_path ls c) = Some d"
    and full: "to_size_t (max_entries_per_file ls) \<le> length (elems d)"
  shows "r = Inr s \<Longrightarrow> file_path s = rotation_path ls c"
    and "q \<noteq> rotation_path ls c \<Longrightarrow> q \<noteq> rotation_path ls c @ ''.tmp'' \<Longrightarrow>
         map_of (files w2) q = map_of (files w) q"
proof -
  from gcs_cases[OF g] obtain r1 ls1 w1 where p: "phase1 cdc ls c w = (r1, ls1, w1)"
    and alt: "(\<exists>e. r = Inl e \<and> w2 = w1 \<and> ls2 = ls1) \<or>
      (\<exists>s. r1 = Inr s \<and> r = Inr s \<and> w2 = w1 \<and> ls2 = ls1 \<and>
           (auto_rotate ls \<longrightarrow> (\<exists>n. ListJSONStore_length cdc s w1 = Inr n \<and>
              n < to_size_t (max_entries_per_file ls)))) \<or>
      (\<exists>s n. r1 = Inr s \<and> auto_rotate ls \<and> ListJSONStore_length cdc s w1 = Inr n \<and>
           n \<ge> to_size_t (max_entries_per_file ls) \<and>
           rotate cdc ls1 c w1 = (r, ls2, w2))" by blast
  note p1 = phase1_cases[OF p]
  have rp: "rotation_path ls1 c = rotation_path ls c"
    using p1 by (simp add: rotation_path_def)
  have w1: "w1 = w" using phase1_existing[OF p] doc_at_exists[OF d] by simp
  have len: "ListJSONStore_length cdc s' w1 = Inr (length (elems d))" if "r1 = Inr s'" for s'
    using that p1 d w1 by (intro length_doc) auto
  from alt consider (err) e where "r = Inl e" "w2 = w1"
    | (rot) "rotate cdc ls1 c w1 = (r, ls2, w2)"
    using len full ar by fastforce
  then have "(\<forall>s. r = Inr s \<longrightarrow> file_path s = rotation_path ls c) \<and>
     (\<forall>q. q \<noteq> rotation_path ls c \<longrightarrow> q \<noteq> rotation_path ls c @ ''.tmp'' \<longrightarrow>
         map_of (files w2) q = map_of (files w) q)"
  proof cases
    case err
    then show ?thesis using w1 by simp
  next
    case rot
    note rc = rotate_cases[OF rot]
    have "w2 = snd (ListJSONStore_init cdc (rotation_path ls1 c) [] c w1)"
      by (rule rc(1))
    then have w2: "w2 = snd (ListJSONStore_init cdc (rotation_path ls c) [] c w)"
      unfolding rp w1 .
    have "\<forall>s. r = Inr s \<longrightarrow> s = list_store (rotation_path ls1 c)"
      using rc(2) by blast
    then have s: "\<forall>s. r = Inr s \<longrightarrow> file_path s = rotation_path ls c"
      unfolding rp by (metis file_path_list_store(1))
    have "\<forall>q. q \<noteq> rotation_path ls c \<longrightarrow> q \<noteq> rotation_path ls c @ ''.tmp'' \<longrightarrow>
         map_of (files w2) q = map_of (files w) q"
      unfolding w2 by (intro allI impI init_footprint)
    with s show ?thesis by blast
  qed
  then show "r = Inr s \<Longrightarrow> file_path s = rotation_path ls c"
    and "q \<noteq> rotation_path ls c \<Longrightarrow> q \<noteq> rotation_path ls c @ ''.tmp'' \<Longrightarrow>
         map_of (files w2) q = map_of (files w) q" by blast+
qed



lemma add_log_cases:
  assumes "add_log cdc ls c e w = (r, ls2, w2)"
  shows "(w2 = w \<and> ls2 = ls) \<or>
         (\<exists>r1 w1. get_current_store cdc ls c w = (r1, ls2, w1) \<and>
            ((\<exists>e1. r1 = Inl e1 \<and> w2 = w1) \<or>
             (\<exists>s item. r1 = Inr s \<and> w2 = snd (ListJSONStore_append cdc s c item w1))))"
proof (cases "stamp_entry c e")
  case (Inl e0)
  then show ?thesis using assms by (simp add: add_log_def)
next
  case (Inr item)
  obtain r1 ls1 w1 where g: "get_current_store cdc ls c w = (r1, ls1, w1)"
    by (cases "get_current_store cdc ls c w") auto
  show ?thesis
  proof (cases r1)
    case (Inl e1)
    then show ?thesis using assms Inr g by (simp add: add_log_def)
  next
    case (Inr s)
    then have "w2 = snd (ListJSONStore_append cdc s c item w1) \<and> ls2 = ls1"
      using assms \<open>stamp_entry c e = Inr item\<close> g
      by (cases "ListJSONStore_append cdc s c item w1")
        (auto simp: add_log_def split: sum.splits)
    then show ?thesis using g Inr by auto
  qed
qed

lemma add_log_spec:
  assumes a: "add_log cdc ls c e w = (r, ls2, w2)"
  shows "directory ls2 = directory ls \<and> prefix ls2 = prefix ls \<and>
         max_entries_per_file ls2 = max_entries_per_file ls \<and> auto_rotate ls2 = auto_rotate ls"
    and "same_faults w w2"
    and "q \<noteq> get_current_file_path ls c \<Longrightarrow> q \<noteq> get_current_file_path ls c @ ''.tmp'' \<Longrightarrow>
         q \<noteq> rotation_path ls c \<Longrightarrow> q \<noteq> rotation_path ls c @ ''.tmp'' \<Longrightarrow>
         map_of (files w2) q = map_of (files w) q"
proof -
  from add_log_cases[OF a] consider (same) "w2 = w" "ls2 = ls"
    | (err) r1 w1 where "get_current_store cdc ls c w = (r1, ls2, w1)" "w2 = w1"
    | (app) s w1 item where "get_current_store cdc ls c w = (Inr s, ls2, w1)"
        "w2 = snd (ListJSONStore_append cdc s c item w1)"
    by blast
  then have "(directory ls2 = directory ls \<and> prefix ls2 = prefix ls \<and>
         max_entries_per_file ls2 = max_entries_per_file ls \<and> auto_rotate ls2 = auto_rotate ls) \<and>
         same_faults w w2 \<and>
         (q \<noteq> get_current_file_path ls c \<longrightarrow> q \<noteq> get_current_file_path ls c @ ''.tmp'' \<longrightarrow>
         q \<noteq> rotation_path ls c \<longrightarrow> q \<noteq> rotation_path ls c @ ''.tmp'' \<longrightarrow>
         map_of (files w2) q = map_of (files w) q)"
  proof cases
    case same
    then show ?thesis by simp
  next
    case err
    then show ?thesis using gcs_spec(1-3)[OF err(1)] by auto
  next
    case app
    note g = gcs_spec[OF app(1)]
    have fp: "file_path s = get_current_file_path ls c \<or> file_path s = rotation_path ls c"
      using g(4) by simp
    have sf: "same_faults w w2"
      using g(2) append_same_faults[of w1 cdc s c item] app(2) by (auto intro: same_faults_trans)
    have "map_of (files w2) q = map_of (files w) q"
      if "q \<noteq> get_current_file_path ls c" "q \<noteq> get_current_file_path ls c @ ''.tmp''"
         "q \<noteq> rotation_path ls c" "q \<noteq> rotation_path ls c @ ''.tmp''"
    proof -
      have "map_of (files w2) q = map_of (files w1) q"
        unfolding app(2) using fp that by (intro append_footprint) auto
      then show ?thesis using g(3)[OF that] by simp
    qed
    then show ?thesis using g(1) sf by blast
  qed
  then show "directory ls2 = directory ls \<and> prefix ls2 = prefix ls \<and>
         max_entries_per_file ls2 = max_entries_per_file ls \<and> auto_rotate ls2 = auto_rotate ls"
    and "same_faults w w2"
    and "q \<noteq> get_current_file_path ls c \<Longrightarrow> q \<noteq> get_current_file_path ls c @ ''.tmp'' \<Longrightarrow>
         q \<noteq> rotation_path ls c \<Longrightarrow> q \<noteq> rotation_path ls c @ ''.tmp'' \<Longrightarrow>
         map_of (files w2) q = map_of (files w) q" by blast+
qed

lemma add_log_full:
  assumes a: "add_log cdc ls c e w = (r, ls2, w2)"
    and ar: "auto_rotate ls" and d: "doc_at cdc w (get_current_file_path ls c) = Some d"
    and full: "to_size_t (max_entries_per_file ls) \<le> length (elems d)"
  shows "map_of (files w2) (get_current_file_path ls c) = map_of (files w) (get_current_file_path ls c)"
proof -
  let ?F = "get_current_file_path ls c"
  have n1: "?F \<noteq> rotation_path ls c" "?F \<noteq> rotation_path ls c @ ''.tmp''"
    by (rule log_paths_distinct)+
  from add_log_cases[OF a] consider (same) "w2 = w"
    | (err) r1 w1 where "get_current_store cdc ls c w = (r1, ls2, w1)" "w2 = w1"
    | (app) s w1 item where "get_current_store cdc ls c w = (Inr s, ls2, w1)"
        "w2 = snd (ListJSONStore_append cdc s c item w1)"
    by blast
  then show ?thesis
  proof cases
    case same
    then show ?thesis by simp
  next
    case err
    then show ?thesis using gcs_full(2)[OF err(1) ar d full n1] by simp
  next
    case app
    have fp: "file_path s = rotation_path ls c" using gcs_full(1)[OF app(1) ar d full] by simp
    have "map_of (files w2) ?F = map_of (files w1) ?F"
      unfolding app(2) using fp n1 by (intro append_footprint) auto
    then show ?thesis using gcs_full(2)[OF app(1) ar d full n1] by simp
  qed
qed

lemma doc_at_cong:
  "same_faults w w' \<Longrightarrow> map_of (files w') p = map_of (files w) p \<Longrightarrow> doc_at cdc w' p = doc_at cdc w p"
  by (auto simp: doc_at_def same_faults_def split: option.splits)

lemma add_log_keeps_full:
  assumes a: "add_log cdc ls c e w = (r, ls2, w2)"
    and ar: "auto_rotate ls" and d: "doc_at cdc w (get_current_file_path ls c0) = Some d"
    and full: "to_size_t (max_entries_per_file ls) \<le> length (elems d)"
  shows "map_of (files w2) (get_current_file_path ls c0) = map_of (files w) (get_current_file_path ls c0)"
proof (cases "get_current_file_path ls c0 = get_current_file_path ls c")
  case True
  then show ?thesis using add_log_full[OF a ar _ full] d by simp
next
  case False
  then show ?thesis
    by (intro add_log_spec(3)[OF a]) (simp_all add: log_paths_distinct)
qed

lemma add_logs_keeps_full:
  assumes ar: "auto_rotate ls" and d: "doc_at cdc w (get_current_file_path ls c0) = Some d"
    and full: "to_size_t (max_entries_per_file ls) \<le> length (elems d)"
  shows "map_of (files (snd (add_logs cdc ls ces w))) (get_current_file_path ls c0) =
         map_of (files w) (get_current_file_path ls c0)"
  using assms
proof (induction ces arbitrary: ls w)
  case Nil
  then show ?case by simp
next
  case (Cons ce ces)
  obtain c e where ce: "ce = (c, e)" by (cases ce)
  obtain r ls1 w1 where a: "add_log cdc ls c e w = (r, ls1, w1)"
    by (cases "add_log cdc ls c e w") auto
  note sp = add_log_spec(1,2)[OF a]
  have pc: "get_current_file_path ls1 c0 = get_current_file_path ls c0"
    using sp(1) by (simp add: get_current_file_path_def)
  have k: "map_of (files w1) (get_current_file_path ls c0) = map_of (files w) (get_current_file_path ls c0)"
    by (rule add_log_keeps_full[OF a Cons.prems])
  have d1: "doc_at cdc w1 (get_current_file_path ls1 c0) = Some d"
    using doc_at_cong[OF sp(2) k] Cons.prems(2) pc by simp
  have ar1: "auto_rotate ls1" using sp(1) Cons.prems(1) by simp
  have full1: "to_size_t (max_entries_per_file ls1) \<le> length (elems d)"
    using sp(1) Cons.prems(3) by simp
  have ih: "map_of (files (snd (add_logs cdc ls1 ces w1))) (get_current_file_path ls1 c0) =
        map_of (files w1) (get_current_file_path ls1 c0)"
    by (rule Cons.IH[OF ar1 d1 full1])
  have step: "add_logs cdc ls (ce # ces) w = add_logs cdc ls1 ces w1"
    unfolding ce by (simp add: a)
  show ?case unfolding step using ih k unfolding pc by (rule trans)
qed

lemma log_paths_distinct_tmp:
  "get_current_file_path ls c @ ''.tmp'' \<noteq> rotation_path ls c'"
  "get_current_file_path ls c @ ''.tmp'' \<noteq> rotation_path ls c' @ ''.tmp''"
proof -
  have *: "\<And>x y :: string. length x \<noteq> length y \<Longrightarrow> x \<noteq> y" by auto
  show "get_current_file_path ls c @ ''.tmp'' \<noteq> rotation_path ls c'"
    by (rule *) (simp add: length_daily length_rot)
  show "get_current_file_path ls c @ ''.tmp'' \<noteq> rotation_path ls c' @ ''.tmp''"
    by (rule *) (simp add: length_daily length_rot)
qed

lemma no_faults_same: "same_faults w w' \<Longrightarrow> no_faults w \<Longrightarrow> no_faults w'"
  by (simp add: no_faults_def same_faults_def)

lemma doc_at_nf:
  "no_faults w \<Longrightarrow>
   doc_at cdc w p = (case map_of (files w) p of None \<Rightarrow> None | Some f \<Rightarrow> parse cdc (content f))"
  by (auto simp: doc_at_def no_faults_def split: option.splits)

lemma doc_at_absent: "\<not> fs_exists w p \<Longrightarrow> doc_at cdc w p = None"
  by (simp add: doc_at_def fs_exists_def)

lemma file_entries_absent: "\<not> fs_exists w p \<Longrightarrow> file_entries cdc w p = []"
  by (simp add: file_entries_def doc_at_absent)

lemma write_internal_nf:
  assumes nf: "no_faults w" and ll: "roundtrip cdc d"
  shows "\<exists>w'. write_internal cdc st c d w = (Inr (), w') \<and> no_faults w' \<and>
     doc_at cdc w' (file_path st) = Some d \<and>
     map_of (files w') (file_path st @ ''.tmp'') = None \<and>
     (\<forall>q. q \<noteq> file_path st \<longrightarrow> q \<noteq> file_path st @ ''.tmp'' \<longrightarrow>
        map_of (files w') q = map_of (files w) q)"
proof -
  obtain bs where bs: "dump cdc (indent st) d = Some bs" "parse cdc bs = Some d"
    using ll unfolding roundtrip_def by blast
  let ?f = "\<lparr>content = bs, mtime = ticks c\<rparr>"
  let ?w = "fs_put (file_path st) ?f
                (fs_remove (file_path st @ ''.tmp'') (fs_put (file_path st @ ''.tmp'') ?f w))"
  have a: "\<not> wr_fail w (file_path st @ ''.tmp'')" "\<not> mv_fail w (file_path st)"
    using nf by (simp_all add: no_faults_def)
  have eq: "write_internal cdc st c d w = (Inr (), ?w)"
    by (rule write_internal_ok[OF a bs(1)])
  have nf': "no_faults ?w" using nf by (simp add: no_faults_def)
  have m: "map_of (files ?w) (file_path st) = Some ?f"
    by (simp add: AList.update_conv')
  have d: "doc_at cdc ?w (file_path st) = Some d"
    using nf' m bs(2) by (simp add: doc_at_nf)
  have t: "map_of (files ?w) (file_path st @ ''.tmp'') = None"
    by (simp add: AList.update_conv' AList.delete_conv')
  have fp: "\<forall>q. q \<noteq> file_path st \<longrightarrow> q \<noteq> file_path st @ ''.tmp'' \<longrightarrow>
        map_of (files ?w) q = map_of (files w) q"
    by (simp add: AList.update_conv' AList.delete_conv')
  show ?thesis using eq nf' d t fp by blast
qed

lemma elems_empty_object [simp]: "elems (JObject []) = []"
  by simp

lemma init_nf:
  assumes nf: "no_faults w" and ll: "roundtrip cdc (JObject [])"
    and ok: "fs_exists w p \<longrightarrow> doc_at cdc w p \<noteq> None"
  shows "\<exists>w'. ListJSONStore_init cdc p kw c w = (Inr (list_store p), w') \<and> no_faults w' \<and>
     file_entries cdc w' p = file_entries cdc w p \<and>
     (fs_exists w' p \<longrightarrow> doc_at cdc w' p \<noteq> None) \<and>
     (fs_exists w p \<longrightarrow> w' = w) \<and>
     (\<forall>q. q \<noteq> p \<longrightarrow> q \<noteq> p @ ''.tmp'' \<longrightarrow> map_of (files w') q = map_of (files w) q)"
proof (cases "fs_exists w p")
  case True
  then have "ListJSONStore_init cdc p kw c w = (Inr (list_store p), w)" by (rule init_existing)
  then show ?thesis using nf ok True by blast
next
  case False
  obtain w' where w': "write_internal cdc (list_store p) c (JObject []) w = (Inr (), w')"
    "no_faults w'" "doc_at cdc w' p = Some (JObject [])"
    "\<forall>q. q \<noteq> p \<longrightarrow> q \<noteq> p @ ''.tmp'' \<longrightarrow> map_of (files w') q = map_of (files w) q"
    using write_internal_nf[OF nf ll, where st = "list_store p" and c = c] by auto
  have eq: "ListJSONStore_init cdc p kw c w = (Inr (list_store p), w')"
    using False w'(1) by (simp add: ListJSONStore_init_def JSONStore_init_def Let_def list_store_def)
  have fe: "file_entries cdc w' p = file_entries cdc w p"
    using w'(3) False by (simp add: file_entries_absent) (simp add: file_entries_def)
  show ?thesis using eq w'(2,3,4) fe False by auto
qed

lemma append_func_elems: "append_func item d = JArray (elems d @ [item])"
  by (cases d) (simp_all add: append_func_def)

lemma current_data_nf:
  assumes nf: "no_faults w" and ok: "fs_exists w (file_path st) \<longrightarrow> doc_at cdc w (file_path st) \<noteq> None"
  shows "\<exists>d. current_data cdc st w = Inr d \<and> elems d = file_entries cdc w (file_path st)"
proof (cases "map_of (files w) (file_path st)")
  case None
  then have "current_data cdc st w = Inr (JObject [])" by (simp add: current_data_def)
  moreover have "file_entries cdc w (file_path st) = []"
    using None by (simp add: file_entries_absent fs_exists_def)
  ultimately show ?thesis by simp
next
  case (Some f)
  then have "fs_exists w (file_path st)" by (simp add: fs_exists_def)
  then obtain d where d: "doc_at cdc w (file_path st) = Some d" using ok by auto
  then have "parse cdc (content f) = Some d" using Some nf by (simp add: doc_at_nf)
  then have "current_data cdc st w = Inr d"
    using Some nf by (simp add: current_data_def no_faults_def)
  then show ?thesis using d by (simp add: file_entries_def)
qed

lemma append_nf:
  assumes nf: "no_faults w"
    and ll: "roundtrip cdc (JArray (file_entries cdc w (file_path st) @ [item]))"
    and ok: "fs_exists w (file_path st) \<longrightarrow> doc_at cdc w (file_path st) \<noteq> None"
  shows "\<exists>w'. ListJSONStore_append cdc st c item w = (Inr (), w') \<and> no_faults w' \<and>
     doc_at cdc w' (file_path st) = Some (JArray (file_entries cdc w (file_path st) @ [item])) \<and>
     map_of (files w') (file_path st @ ''.tmp'') = None \<and>
     (\<forall>q. q \<noteq> file_path st \<longrightarrow> q \<noteq> file_path st @ ''.tmp'' \<longrightarrow>
        map_of (files w') q = map_of (files w) q)"
proof -
  obtain d where d: "current_data cdc st w = Inr d" "elems d = file_entries cdc w (file_path st)"
    using current_data_nf[OF nf ok] by blast
  let ?new = "JArray (file_entries cdc w (file_path st) @ [item])"
  have new: "append_func item d = ?new" using d(2) by (simp add: append_func_elems)
  obtain w' where w': "write_internal cdc st c ?new w = (Inr (), w')" "no_faults w'"
    "doc_at cdc w' (file_path st) = Some ?new"
    "map_of (files w') (file_path st @ ''.tmp'') = None"
    "\<forall>q. q \<noteq> file_path st \<longrightarrow> q \<noteq> file_path st @ ''.tmp'' \<longrightarrow>
        map_of (files w') q = map_of (files w) q"
    using write_internal_nf[OF nf ll, where st = st and c = c] by blast
  have "JSONStore_update cdc st c (append_func item) w = (Inr ?new, w')"
    using d(1) new w'(1) by (simp add: JSONStore_update_def Let_def)
  then have "ListJSONStore_append cdc st c item w = (Inr (), w')"
    by (simp add: ListJSONStore_append_def)
  then show ?thesis using w'(2-5) by blast
qed

lemma same_config_refl [simp]: "same_config ls ls"
  by (simp add: same_config_def)

lemma same_config_bind [simp]: "same_config ls (ls\<lparr>current_store := x\<rparr>)"
  by (simp add: same_config_def)

lemma same_config_trans: "same_config a b \<Longrightarrow> same_config b c \<Longrightarrow> same_config a c"
  by (simp add: same_config_def)

lemma same_config_paths:
  "same_config ls ls' \<Longrightarrow> rotation_path ls' c = rotation_path ls c"
  "same_config ls ls' \<Longrightarrow> get_current_file_path ls' c = get_current_file_path ls c"
  by (simp_all add: same_config_def rotation_path_def get_current_file_path_def)

lemma untouched_refl [simp]: "untouched p w w"
  by (simp add: untouched_def)

lemma untouched_trans: "untouched p w w1 \<Longrightarrow> untouched p w1 w2 \<Longrightarrow> untouched p w w2"
  by (simp add: untouched_def)

lemma init_nf':
  assumes nf: "no_faults w" and ll: "roundtrip cdc (JObject [])" and ok: "appendable cdc w p"
  obtains w' where "ListJSONStore_init cdc p kw c w = (Inr (list_store p), w')" "no_faults w'"
    "file_entries cdc w' p = file_entries cdc w p" "appendable cdc w' p"
    "fs_exists w p \<longrightarrow> w' = w" "untouched p w w'"
  using init_nf[OF nf ll, of p kw c] ok unfolding appendable_def untouched_def by blast

lemma phase1_nf:
  assumes nf: "no_faults w" and ll: "roundtrip cdc (JObject [])"
    and ok: "appendable cdc w (get_current_file_path ls c)"
  obtains s1 ls1 w1 where "phase1 cdc ls c w = (Inr s1, ls1, w1)"
    "file_path s1 = get_current_file_path ls c" "no_faults w1" "same_config ls ls1"
    "file_entries cdc w1 (get_current_file_path ls c) = file_entries cdc w (get_current_file_path ls c)"
    "appendable cdc w1 (get_current_file_path ls c)"
    "fs_exists w (get_current_file_path ls c) \<longrightarrow> w1 = w"
    "untouched (get_current_file_path ls c) w w1"
proof (cases "\<exists>s. current_store ls = Some s \<and> file_path s = get_current_file_path ls c")
  case True
  then obtain s where s: "current_store ls = Some s" "file_path s = get_current_file_path ls c"
    by blast
  then have eq: "phase1 cdc ls c w = (Inr s, ls, w)" by (simp add: phase1_def)
  show ?thesis
    by (rule that[OF eq s(2) nf same_config_refl refl ok _ untouched_refl]) simp
next
  case False
  let ?p = "get_current_file_path ls c"
  have ph: "phase1 cdc ls c w = bind_store cdc ls ?p c w"
    using False by (auto simp: phase1_def split: option.splits)
  obtain w1 where w1: "ListJSONStore_init cdc ?p [] c w = (Inr (list_store ?p), w1)"
    "no_faults w1" "file_entries cdc w1 ?p = file_entries cdc w ?p"
    "appendable cdc w1 ?p" "fs_exists w ?p \<longrightarrow> w1 = w" "untouched ?p w w1"
    by (rule init_nf'[OF nf ll ok, of "[]" c])
  have eq: "phase1 cdc ls c w = (Inr (list_store ?p), ls\<lparr>current_store := Some (list_store ?p)\<rparr>, w1)"
    unfolding ph by (simp add: bind_store_def w1(1))
  show ?thesis
    by (rule that[OF eq file_path_list_store(1) w1(2) same_config_bind w1(3) w1(4) w1(5) w1(6)])
qed

lemma length_nf:
  assumes "appendable cdc w (file_path s)"
  shows "ListJSONStore_length cdc s w = Inr (length (file_entries cdc w (file_path s)))"
proof (cases "fs_exists w (file_path s)")
  case True
  then obtain d where d: "doc_at cdc w (file_path s) = Some d"
    using assms unfolding appendable_def by auto
  then show ?thesis by (simp add: length_doc file_entries_def)
next
  case False
  then show ?thesis by (simp add: length_absent file_entries_absent)
qed

lemma rotate_nf:
  assumes nf: "no_faults w" and ll: "roundtrip cdc (JObject [])"
    and ok: "appendable cdc w (rotation_path ls c)"
  obtains ls2 w2 where "rotate cdc ls c w = (Inr (list_store (rotation_path ls c)), ls2, w2)"
    "no_faults w2" "same_config ls ls2"
    "file_entries cdc w2 (rotation_path ls c) = file_entries cdc w (rotation_path ls c)"
    "appendable cdc w2 (rotation_path ls c)" "untouched (rotation_path ls c) w w2"
proof -
  let ?p = "rotation_path ls c"
  obtain w1 where w1: "ListJSONStore_init cdc ?p [] c w = (Inr (list_store ?p), w1)"
    "no_faults w1" "file_entries cdc w1 ?p = file_entries cdc w ?p"
    "appendable cdc w1 ?p" "fs_exists w ?p \<longrightarrow> w1 = w" "untouched ?p w w1"
    by (rule init_nf'[OF nf ll ok, of "[]" c])
  have eq: "rotate cdc ls c w = (Inr (list_store ?p), ls\<lparr>current_store := Some (list_store ?p)\<rparr>, w1)"
    by (simp add: rotate_def bind_store_def w1(1))
  show ?thesis
    by (rule that[OF eq w1(2) same_config_bind w1(3) w1(4) w1(6)])
qed

lemma gcs_nf:
  assumes nf: "no_faults w" and ll: "roundtrip cdc (JObject [])"
    and dl: "appendable cdc w (get_current_file_path ls c)"
    and rt: "appendable cdc w (rotation_path ls c)"
    and mx: "0 < to_size_t (max_entries_per_file ls)"
  obtains s ls2 w2 where "get_current_store cdc ls c w = (Inr s, ls2, w2)"
    "file_path s = target cdc ls c w" "no_faults w2" "same_config ls ls2"
    "file_entries cdc w2 (target cdc ls c w) = file_entries cdc w (target cdc ls c w)"
    "appendable cdc w2 (target cdc ls c w)" "untouched (target cdc ls c w) w w2"
proof -
  let ?d = "get_current_file_path ls c" and ?r = "rotation_path ls c"
  obtain s1 ls1 w1 where p: "phase1 cdc ls c w = (Inr s1, ls1, w1)"
    and s1: "file_path s1 = ?d" and nf1: "no_faults w1"
    and f1: "same_config ls ls1"
    and fe1: "file_entries cdc w1 ?d = file_entries cdc w ?d"
    and ok1: "appendable cdc w1 ?d"
    and ex1: "fs_exists w ?d \<longrightarrow> w1 = w"
    and fp1: "untouched ?d w w1"
    by (rule phase1_nf[OF nf ll dl])
  have ok1': "appendable cdc w1 (file_path s1)" using ok1 unfolding s1 .
  have len: "ListJSONStore_length cdc s1 w1 = Inr (length (file_entries cdc w ?d))"
    using length_nf[OF ok1'] unfolding s1 fe1 .
  have ar: "auto_rotate ls1 = auto_rotate ls" and me: "max_entries_per_file ls1 = max_entries_per_file ls"
    using f1 by (simp_all add: same_config_def)
  show ?thesis
  proof (cases "auto_rotate ls \<and> to_size_t (max_entries_per_file ls) \<le> length (file_entries cdc w ?d)")
    case False
    have t: "target cdc ls c w = ?d" unfolding target_def using False by (rule if_not_P)
    have eq: "get_current_store cdc ls c w = (Inr s1, ls1, w1)"
      using False by (auto simp: gcs_unfold p ar me len)
    show ?thesis
      by (rule that[OF eq]) (simp_all only: t s1 nf1 f1 fe1 ok1 fp1)
  next
    case True
    have t: "target cdc ls c w = ?r" unfolding target_def using True by (rule if_P)
    have "file_entries cdc w ?d \<noteq> []" using True mx by auto
    then have "fs_exists w ?d" using file_entries_absent by blast
    then have w1: "w1 = w" using ex1 by blast
    have rp: "rotation_path ls1 c = ?r" by (rule same_config_paths(1)[OF f1])
    have "get_current_store cdc ls c w = rotate cdc ls1 c w1"
      using True by (simp add: gcs_unfold p ar me len)
    then have g: "get_current_store cdc ls c w = rotate cdc ls1 c w"
      unfolding w1 .
    have rt1: "appendable cdc w (rotation_path ls1 c)" using rt unfolding rp .
    obtain ls2 w2 where r: "rotate cdc ls1 c w = (Inr (list_store (rotation_path ls1 c)), ls2, w2)"
      and nf2: "no_faults w2" and f2: "same_config ls1 ls2"
      and fe2: "file_entries cdc w2 (rotation_path ls1 c) = file_entries cdc w (rotation_path ls1 c)"
      and ok2: "appendable cdc w2 (rotation_path ls1 c)"
      and fp2: "untouched (rotation_path ls1 c) w w2"
      by (rule rotate_nf[OF nf ll rt1])
    have f12: "same_config ls ls2" using f1 f2 by (rule same_config_trans)
    have eq: "get_current_store cdc ls c w = (Inr (list_store ?r), ls2, w2)"
      using g r unfolding rp by simp
    show ?thesis
      by (rule that[OF eq]) (simp_all only: t file_path_list_store nf2 f12 fe2[unfolded rp] ok2[unfolded rp] fp2[unfolded rp])
  qed
qed

lemma add_log_ok:
  assumes nf: "no_faults w" and ll: "roundtrip cdc (JObject [])"
    and la: "roundtrip cdc (JArray (file_entries cdc w (target cdc ls c w) @ [item]))"
    and st: "stamp_entry c e = Inr item"
    and dl: "appendable cdc w (get_current_file_path ls c)"
    and rt: "appendable cdc w (rotation_path ls c)"
    and mx: "0 < to_size_t (max_entries_per_file ls)"
  obtains ls' w' where "add_log cdc ls c e w = (Inr (), ls', w')" "no_faults w'"
    "same_config ls ls'"
    "doc_at cdc w' (target cdc ls c w) =
       Some (JArray (file_entries cdc w (target cdc ls c w) @ [item]))"
    "map_of (files w') (target cdc ls c w @ ''.tmp'') = None"
    "untouched (target cdc ls c w) w w'"
proof -
  let ?t = "target cdc ls c w"
  obtain s ls2 w2 where g: "get_current_store cdc ls c w = (Inr s, ls2, w2)"
    and s: "file_path s = ?t" and nf2: "no_faults w2" and f2: "same_config ls ls2"
    and fe2: "file_entries cdc w2 ?t = file_entries cdc w ?t"
    and ok2: "appendable cdc w2 ?t" and fp2: "untouched ?t w w2"
    by (rule gcs_nf[OF nf ll dl rt mx])
  have ok2': "fs_exists w2 (file_path s) \<longrightarrow> doc_at cdc w2 (file_path s) \<noteq> None"
    using ok2 unfolding s appendable_def .
  obtain w' where a: "ListJSONStore_append cdc s c item w2 = (Inr (), w')" and nf': "no_faults w'"
    and d': "doc_at cdc w' (file_path s) = Some (JArray (file_entries cdc w2 (file_path s) @ [item]))"
    and t': "map_of (files w') (file_path s @ ''.tmp'') = None"
    and fp': "\<forall>q. q \<noteq> file_path s \<longrightarrow> q \<noteq> file_path s @ ''.tmp'' \<longrightarrow>
        map_of (files w') q = map_of (files w2) q"
    using append_nf[OF nf2 la[folded fe2, folded s] ok2', of c] by blast
  have eq: "add_log cdc ls c e w = (Inr (), ls2, w')"
    by (simp add: add_log_def st g a)
  have d: "doc_at cdc w' ?t = Some (JArray (file_entries cdc w ?t @ [item]))"
    using d' unfolding s fe2 .
  have t: "map_of (files w') (?t @ ''.tmp'') = None" using t' unfolding s .
  have "untouched ?t w2 w'" using fp' unfolding s untouched_def .
  with fp2 have fp: "untouched ?t w w'" by (rule untouched_trans)
  show ?thesis by (rule that[OF eq nf' f2 d t fp])
qed

lemma to_size_t_2 [simp]: "to_size_t 2 = 2"
  by (simp add: to_size_t_def)

lemma untouchedD:
  "untouched p w w' \<Longrightarrow> q \<noteq> p \<Longrightarrow> q \<noteq> p @ ''.tmp'' \<Longrightarrow> map_of (files w') q = map_of (files w) q"
  by (simp add: untouched_def)

lemma doc_at_nf_cong:
  "no_faults w \<Longrightarrow> no_faults w' \<Longrightarrow> map_of (files w') p = map_of (files w) p \<Longrightarrow>
   doc_at cdc w' p = doc_at cdc w p"
  by (simp add: doc_at_nf)

lemma absent_appendable: "map_of (files w) p = None \<Longrightarrow> appendable cdc w p"
  by (simp add: appendable_def fs_exists_def)

lemma absent_entries: "map_of (files w) p = None \<Longrightarrow> file_entries cdc w p = []"
  by (simp add: file_entries_absent fs_exists_def)

lemma doc_appendable: "doc_at cdc w p = Some d \<Longrightarrow> appendable cdc w p"
  by (simp add: appendable_def)

lemma doc_entries: "doc_at cdc w p = Some (JArray xs) \<Longrightarrow> file_entries cdc w p = xs"
  by (simp add: file_entries_def)

lemma doc_present: "doc_at cdc w p = Some d \<Longrightarrow> map_of (files w) p \<noteq> None"
  by (auto simp: doc_at_def split: option.splits)

lemma three_logs:
  assumes mx: "max_entries_per_file ls = 2" and ar: "auto_rotate ls" and em: "files w = []"
    and nf: "no_faults w" and ll: "roundtrip cdc (JObject [])"
    and l1: "roundtrip cdc (JArray [s1])" and l2: "roundtrip cdc (JArray [s1, s2])"
    and l3: "roundtrip cdc (JArray [s3])"
    and day2: "strftime_Ymd c2 = strftime_Ymd c1" and day3: "strftime_Ymd c3 = strftime_Ymd c1"
    and st1: "stamp_entry c1 e1 = Inr s1" and st2: "stamp_entry c2 e2 = Inr s2"
    and st3: "stamp_entry c3 e3 = Inr s3"
  defines "daily \<equiv> get_current_file_path ls c1" and "rot \<equiv> rotation_path ls c3"
  defines "w3 \<equiv> snd (add_logs cdc ls [(c1, e1), (c2, e2), (c3, e3)] w)"
  shows "doc_at cdc w3 daily = Some (JArray [s1, s2])"
    and "doc_at cdc w3 rot = Some (JArray [s3])"
    and "fst ` set (files w3) = {daily, rot}"
    and "daily \<noteq> rot"
proof -
  have M0: "map_of (files w) q = None" for q by (simp add: em)
  have mx0: "0 < to_size_t (max_entries_per_file ls)" by (simp add: mx)
  have t1: "target cdc ls c1 w = daily"
    by (simp add: target_def daily_def absent_entries[OF M0] mx)
  obtain ls1 w1 where a1: "add_log cdc ls c1 e1 w = (Inr (), ls1, w1)" and nf1: "no_faults w1"
    and sc1: "same_config ls ls1"
    and d1: "doc_at cdc w1 (target cdc ls c1 w) =
       Some (JArray (file_entries cdc w (target cdc ls c1 w) @ [s1]))"
    and tm1: "map_of (files w1) (target cdc ls c1 w @ ''.tmp'') = None"
    and u1: "untouched (target cdc ls c1 w) w w1"
    by (rule add_log_ok[OF nf ll _ st1 absent_appendable[OF M0] absent_appendable[OF M0] mx0])
      (simp add: t1 absent_entries[OF M0] l1)
  have d1': "doc_at cdc w1 daily = Some (JArray [s1])"
    using d1 unfolding t1 by (simp add: absent_entries[OF M0])
  have tm1': "map_of (files w1) (daily @ ''.tmp'') = None" using tm1 unfolding t1 .
  have u1': "untouched daily w w1" using u1 unfolding t1 .
  have other1: "map_of (files w1) q = None" if "q \<noteq> daily" for q
  proof (cases "q = daily @ ''.tmp''")
    case True
    then show ?thesis using tm1' by simp
  next
    case False
    then show ?thesis using untouchedD[OF u1' that False] M0 by simp
  qed
  have p2: "get_current_file_path ls1 c2 = daily"
    using same_config_paths(2)[OF sc1, of c2] by (simp add: daily_def get_current_file_path_def day2)
  have r2: "rotation_path ls1 c2 \<noteq> daily"
    unfolding same_config_paths(1)[OF sc1] daily_def using log_paths_distinct(1) by metis
  have mx1: "max_entries_per_file ls1 = 2" "auto_rotate ls1"
    using sc1 mx ar by (simp_all add: same_config_def)
  have mx1': "0 < to_size_t (max_entries_per_file ls1)" by (simp add: mx1)
  have t2: "target cdc ls1 c2 w1 = daily"
    by (simp add: target_def p2 doc_entries[OF d1'] mx1)
  have ap2: "appendable cdc w1 (get_current_file_path ls1 c2)"
    unfolding p2 by (rule doc_appendable[OF d1'])
  have ap2r: "appendable cdc w1 (rotation_path ls1 c2)"
    by (rule absent_appendable[OF other1[OF r2]])
  obtain ls2 w2 where a2: "add_log cdc ls1 c2 e2 w1 = (Inr (), ls2, w2)" and nf2: "no_faults w2"
    and sc2: "same_config ls1 ls2"
    and d2: "doc_at cdc w2 (target cdc ls1 c2 w1) =
       Some (JArray (file_entries cdc w1 (target cdc ls1 c2 w1) @ [s2]))"
    and tm2: "map_of (files w2) (target cdc ls1 c2 w1 @ ''.tmp'') = None"
    and u2: "untouched (target cdc ls1 c2 w1) w1 w2"
    by (rule add_log_ok[OF nf1 ll _ st2 ap2 ap2r mx1'])
      (simp add: t2 doc_entries[OF d1'] l2)
  have d2': "doc_at cdc w2 daily = Some (JArray [s1, s2])"
    using d2 unfolding t2 by (simp add: doc_entries[OF d1'])
  have tm2': "map_of (files w2) (daily @ ''.tmp'') = None" using tm2 unfolding t2 .
  have u2': "untouched daily w1 w2" using u2 unfolding t2 .
  have other2: "map_of (files w2) q = None" if "q \<noteq> daily" for q
  proof (cases "q = daily @ ''.tmp''")
    case True
    then show ?thesis using tm2' by simp
  next
    case False
    then show ?thesis using untouchedD[OF u2' that False] other1[OF that] by simp
  qed
  have sc02: "same_config ls ls2" using sc1 sc2 by (rule same_config_trans)
  have p3: "get_current_file_path ls2 c3 = daily"
    using same_config_paths(2)[OF sc02, of c3] by (simp add: daily_def get_current_file_path_def day3)
  have r3: "rotation_path ls2 c3 = rot"
    unfolding rot_def by (rule same_config_paths(1)[OF sc02])
  have ne: "rot \<noteq> daily" "daily \<noteq> rot @ ''.tmp''" "daily @ ''.tmp'' \<noteq> rot"
    "daily @ ''.tmp'' \<noteq> rot @ ''.tmp''"
    unfolding rot_def daily_def
    using log_paths_distinct(1,2)[of ls c1 c3] log_paths_distinct_tmp[of ls c1 c3] by auto
  have mx2: "max_entries_per_file ls2 = 2" "auto_rotate ls2"
    using sc02 mx ar by (simp_all add: same_config_def)
  have mx2': "0 < to_size_t (max_entries_per_file ls2)" by (simp add: mx2)
  have t3: "target cdc ls2 c3 w2 = rot"
    by (simp add: target_def p3 r3 doc_entries[OF d2'] mx2)
  have ap3: "appendable cdc w2 (get_current_file_path ls2 c3)"
    unfolding p3 by (rule doc_appendable[OF d2'])
  have ap3r: "appendable cdc w2 (rotation_path ls2 c3)"
    unfolding r3 by (rule absent_appendable[OF other2[OF ne(1)]])
  obtain ls3 w3' where a3: "add_log cdc ls2 c3 e3 w2 = (Inr (), ls3, w3')" and nf3: "no_faults w3'"
    and sc3: "same_config ls2 ls3"
    and d3: "doc_at cdc w3' (target cdc ls2 c3 w2) =
       Some (JArray (file_entries cdc w2 (target cdc ls2 c3 w2) @ [s3]))"
    and tm3: "map_of (files w3') (target cdc ls2 c3 w2 @ ''.tmp'') = None"
    and u3: "untouched (target cdc ls2 c3 w2) w2 w3'"
    by (rule add_log_ok[OF nf2 ll _ st3 ap3 ap3r mx2'])
      (simp add: t3 absent_entries[OF other2[OF ne(1)]] l3)
  have w3: "w3 = w3'" by (simp add: w3_def a1 a2 a3)
  have d3': "doc_at cdc w3' rot = Some (JArray [s3])"
    using d3 unfolding t3 by (simp add: absent_entries[OF other2[OF ne(1)]])
  have tm3': "map_of (files w3') (rot @ ''.tmp'') = None" using tm3 unfolding t3 .
  have u3': "untouched rot w2 w3'" using u3 unfolding t3 .
  have keep: "map_of (files w3') daily = map_of (files w2) daily"
    using untouchedD[OF u3'] ne by metis
  have dd: "doc_at cdc w3' daily = Some (JArray [s1, s2])"
    using doc_at_nf_cong[OF nf2 nf3 keep] d2' by simp
  have dom: "(map_of (files w3') q \<noteq> None) = (q = daily \<or> q = rot)" for q
  proof (cases "q = daily \<or> q = rot")
    case True
    then show ?thesis using doc_present[OF dd] doc_present[OF d3'] by auto
  next
    case False
    then have q: "q \<noteq> daily" "q \<noteq> rot" by auto
    have "map_of (files w3') q = None"
    proof (cases "q = rot @ ''.tmp''")
      case True
      then show ?thesis using tm3' by simp
    next
      case False
      then show ?thesis using untouchedD[OF u3' q(2) False] other2[OF q(1)] by simp
    qed
    then show ?thesis using False by simp
  qed
  have "fst ` set (files w3') = dom (map_of (files w3'))"
    by (simp add: dom_map_of_conv_image_fst)
  also have "\<dots> = {daily, rot}" using dom by (auto simp: dom_def)
  finally have keys: "fst ` set (files w3') = {daily, rot}" .
  show "doc_at cdc w3 daily = Some (JArray [s1, s2])" unfolding w3 by (rule dd)
  show "doc_at cdc w3 rot = Some (JArray [s3])" unfolding w3 by (rule d3')
  show "fst ` set (files w3) = {daily, rot}" unfolding w3 by (rule keys)
  show "daily \<noteq> rot" using ne(1) by simp
qed

lemma listed_exists:
  assumes "fs_list w d = Some entries" "p \<in> set entries"
  shows "fs_exists w p"
proof -
  have "p \<in> fst ` set (files w)"
    using assms by (auto simp: fs_list_def split: if_splits)
  then show ?thesis by (simp add: fs_exists_def map_of_eq_None_iff)
qed

lemma log_files_set:
  "set (log_files ls entries) = {p \<in> set entries. str_find (prefix ls @ ''_'') (filename p)}"
  by (auto simp: log_files_def)

lemma log_files_sorted: "sorted (log_files ls entries)"
  by (simp add: log_files_def)

lemma read_logs_ok:
  assumes "\<forall>p \<in> set ps. fs_exists w p \<and> doc_at cdc w p \<noteq> None"
  shows "read_logs cdc c ps logs w = (Inr (logs @ concat (map (file_entries cdc w) ps)), w)"
  using assms
proof (induction ps arbitrary: logs)
  case Nil
  then show ?case by simp
next
  case (Cons p ps)
  from Cons.prems obtain d where ex: "fs_exists w p" and d: "doc_at cdc w p = Some d" by auto
  have i: "ListJSONStore_init cdc p [] c w = (Inr (list_store p), w)"
    using ex by (rule init_existing)
  have r: "JSONStore_read cdc (list_store p) (JArray []) w = Inr d"
    by (rule read_doc) (simp add: d)
  have e: "(if is_array d then logs @ elems d else logs) = logs @ elems d"
    by (cases d) auto
  have fe: "file_entries cdc w p = elems d" by (simp add: file_entries_def d)
  have "read_logs cdc c ps (logs @ elems d) w =
        (Inr ((logs @ elems d) @ concat (map (file_entries cdc w) ps)), w)"
    using Cons.prems by (intro Cons.IH) simp
  then show ?case by (simp add: i r e fe)
qed

lemma get_logs_bounds:
  "get_logs cdc ls start_date end_date filter_func c w =
   get_logs cdc ls start_date' end_date' filter_func c w"
  by (simp add: get_logs_def)

lemma get_logs_ok:
  assumes "fs_list w (directory ls) = Some entries"
    and "\<forall>p \<in> set (log_files ls entries). doc_at cdc w p \<noteq> None"
  shows "get_logs cdc ls start_date end_date filter_func c w =
     (Inr (case filter_func of
             None \<Rightarrow> concat (map (file_entries cdc w) (log_files ls entries))
           | Some f \<Rightarrow> filter f (concat (map (file_entries cdc w) (log_files ls entries)))), w)"
proof -
  have "\<forall>p \<in> set (log_files ls entries). fs_exists w p \<and> doc_at cdc w p \<noteq> None"
    using assms listed_exists[OF assms(1)] by (auto simp: log_files_set)
  then have "read_logs cdc c (log_files ls entries) [] w =
     (Inr ([] @ concat (map (file_entries cdc w) (log_files ls entries))), w)"
    by (rule read_logs_ok)
  then show ?thesis using assms(1) by (simp add: get_logs_def)
qed

subsection \<open>Order of names and order of times\<close>

lemma lex_append_same_length:
  "length a = length b \<Longrightarrow> (a @ x < b @ y) = (a < b \<or> a = b \<and> x < y)"
  for a b x y :: "'a::linorder list"
  by (induction a b rule: list_induct2) auto

lemma lex_append_left: "(a @ x < a @ y) = (x < y)" for a x y :: "'a::linorder list"
  by (induction a) auto

lemma of_char_digit: "i < 10 \<Longrightarrow> of_char (digit i) = (48 + i :: nat)"
proof -
  assume "i < 10"
  then have "i = 0 \<or> i = 1 \<or> i = 2 \<or> i = 3 \<or> i = 4 \<or> i = 5 \<or> i = 6 \<or> i = 7 \<or> i = 8 \<or> i = 9"
    by arith
  then show ?thesis by (auto simp: digit_def)
qed

lemma digit_less: "i < 10 \<Longrightarrow> j < 10 \<Longrightarrow> (digit i < digit j) = (i < j)"
  by (simp add: less_char_def of_char_digit)

lemma digit_eq: "i < 10 \<Longrightarrow> j < 10 \<Longrightarrow> (digit i = digit j) = (i = j)"
proof -
  assume a: "i < 10" "j < 10"
  have "(digit i = digit j) = ((of_char (digit i) :: nat) = of_char (digit j))"
    by (simp only: of_char_eq_iff)
  then show ?thesis using a by (simp add: of_char_digit)
qed

lemma digit_mod: "digit n = digit (n mod 10)"
  by (simp add: digit_def)

lemma lex10:
  fixes a b a' b' :: nat
  assumes "b < 10" "b' < 10"
  shows "(a < a' \<or> a = a' \<and> b < b') = (10 * a + b < 10 * a' + b')"
    and "(a = a' \<and> b = b') = (10 * a + b = 10 * a' + b')"
  using assms by (cases a a' rule: linorder_cases; simp; linarith)+

lemma lex100:
  fixes a b a' b' :: nat
  assumes "b < 100" "b' < 100"
  shows "(a < a' \<or> a = a' \<and> b < b') = (100 * a + b < 100 * a' + b')"
    and "(a = a' \<and> b = b') = (100 * a + b = 100 * a' + b')"
  using assms by (cases a a' rule: linorder_cases; simp; linarith)+

lemma split10: "10 * (m div 10) + m mod 10 = (m::nat)" "100 * (m div 100) + m mod 100 = m"
  by simp_all

lemma dec2_less: "m < 100 \<Longrightarrow> n < 100 \<Longrightarrow> (dec2 m < dec2 n) = (m < n)"
proof -
  assume a: "m < 100" "n < 100"
  have d: "m div 10 < 10" "n div 10 < 10" "m mod 10 < 10" "n mod 10 < 10" using a by auto
  have "(dec2 m < dec2 n) =
        (digit (m div 10) < digit (n div 10) \<or>
         digit (m div 10) = digit (n div 10) \<and> digit (m mod 10) < digit (n mod 10))"
    unfolding dec2_def digit_mod[of m] digit_mod[of n] by simp
  also have "\<dots> = (m div 10 < n div 10 \<or> m div 10 = n div 10 \<and> m mod 10 < n mod 10)"
    by (simp only: digit_less[OF d(1,2)] digit_eq[OF d(1,2)] digit_less[OF d(3,4)])
  also have "\<dots> = (m < n)"
    unfolding lex10(1)[OF d(3,4)] split10 ..
  finally show ?thesis .
qed

lemma dec2_eq: "m < 100 \<Longrightarrow> n < 100 \<Longrightarrow> (dec2 m = dec2 n) = (m = n)"
proof -
  assume a: "m < 100" "n < 100"
  have d: "m div 10 < 10" "n div 10 < 10" "m mod 10 < 10" "n mod 10 < 10" using a by auto
  have "(dec2 m = dec2 n) =
        (digit (m div 10) = digit (n div 10) \<and> digit (m mod 10) = digit (n mod 10))"
    unfolding dec2_def digit_mod[of m] digit_mod[of n] by simp
  also have "\<dots> = (m div 10 = n div 10 \<and> m mod 10 = n mod 10)"
    by (simp only: digit_eq[OF d(1,2)] digit_eq[OF d(3,4)])
  also have "\<dots> = (m = n)"
    unfolding lex10(2)[OF d(3,4)] split10 ..
  finally show ?thesis .
qed

lemma dec4_split: "dec4 n = dec2 (n div 100) @ dec2 (n mod 100)"
proof -
  have a: "n div 100 div 10 = n div 1000" by (simp add: div_mult2_eq[symmetric])
  have b: "(n div 100) mod 10 = (n div 100) mod 10" by simp
  have "n mod 100 = n mod (10 * 10)" by simp
  also have "\<dots> = 10 * (n div 10 mod 10) + n mod 10" by (rule mod_mult2_eq)
  finally have "n mod 100 div 10 = n div 10 mod 10" by simp
  then have c: "(n mod 100 div 10) mod 10 = (n div 10) mod 10" by simp
  have d: "(n mod 100) mod 10 = n mod 10"
    by (simp add: mod_mod_cancel)
  show ?thesis
    unfolding dec4_def dec2_def a
    using c d by (simp add: digit_def)
qed

lemma length_dec [simp]: "length (dec2 n) = 2" "length (dec4 n) = 4"
  by (simp_all add: dec2_def dec4_def)

lemma dec4_less: "m < 10000 \<Longrightarrow> n < 10000 \<Longrightarrow> (dec4 m < dec4 n) = (m < n)"
proof -
  assume a: "m < 10000" "n < 10000"
  have d: "m div 100 < 100" "n div 100 < 100" "m mod 100 < 100" "n mod 100 < 100" using a by auto
  have "(dec4 m < dec4 n) =
        (dec2 (m div 100) < dec2 (n div 100) \<or>
         dec2 (m div 100) = dec2 (n div 100) \<and> dec2 (m mod 100) < dec2 (n mod 100))"
    unfolding dec4_split by (rule lex_append_same_length) simp
  also have "\<dots> = (m div 100 < n div 100 \<or> m div 100 = n div 100 \<and> m mod 100 < n mod 100)"
    by (simp only: dec2_less[OF d(1,2)] dec2_eq[OF d(1,2)] dec2_less[OF d(3,4)])
  also have "\<dots> = (m < n)"
    unfolding lex100(1)[OF d(3,4)] split10 ..
  finally show ?thesis .
qed

lemma dec4_eq: "m < 10000 \<Longrightarrow> n < 10000 \<Longrightarrow> (dec4 m = dec4 n) = (m = n)"
proof -
  assume a: "m < 10000" "n < 10000"
  have d: "m div 100 < 100" "n div 100 < 100" "m mod 100 < 100" "n mod 100 < 100" using a by auto
  have "(dec4 m = dec4 n) =
        (dec2 (m div 100) = dec2 (n div 100) \<and> dec2 (m mod 100) = dec2 (n mod 100))"
    unfolding dec4_split by simp
  also have "\<dots> = (m div 100 = n div 100 \<and> m mod 100 = n mod 100)"
    by (simp only: dec2_eq[OF d(1,2)] dec2_eq[OF d(3,4)])
  also have "\<dots> = (m = n)"
    unfolding lex100(2)[OF d(3,4)] split10 ..
  finally show ?thesis .
qed

lemma lex_append_same: "(a @ x < b @ x) = (a < b)" if "length a = length b"
  for a b x :: "'a::linorder list"
  using that by (simp add: lex_append_same_length)

lemma ymd_less:
  assumes "in_range c1" "in_range c2"
  shows "(strftime_Ymd c1 < strftime_Ymd c2) = (date_fields c1 < date_fields c2)"
    and "(strftime_Ymd c1 = strftime_Ymd c2) = (date_fields c1 = date_fields c2)"
proof -
  have r: "year c1 < 10000" "year c2 < 10000" "month c1 < 100" "month c2 < 100"
    "mday c1 < 100" "mday c2 < 100"
    using assms by (simp_all add: in_range_def)
  show "(strftime_Ymd c1 < strftime_Ymd c2) = (date_fields c1 < date_fields c2)"
    unfolding strftime_Ymd_def date_fields_def
    by (simp add: lex_append_same_length dec4_less[OF r(1,2)] dec4_eq[OF r(1,2)]
        dec2_less[OF r(3,4)] dec2_eq[OF r(3,4)] dec2_less[OF r(5,6)])
  show "(strftime_Ymd c1 = strftime_Ymd c2) = (date_fields c1 = date_fields c2)"
    unfolding strftime_Ymd_def date_fields_def
    by (simp add: dec4_eq[OF r(1,2)] dec2_eq[OF r(3,4)] dec2_eq[OF r(5,6)])
qed

lemma stamp_split:
  "strftime_YmdHMS c = strftime_Ymd c @ ''_'' @ dec2 (hour c) @ dec2 (minute c) @ dec2 (second c)"
  by (simp add: strftime_YmdHMS_def strftime_Ymd_def)

lemma ymdhms_less:
  assumes "in_range c1" "in_range c2"
  shows "(strftime_YmdHMS c1 < strftime_YmdHMS c2) = (clock_fields c1 < clock_fields c2)"
proof -
  have r: "hour c1 < 100" "hour c2 < 100" "minute c1 < 100" "minute c2 < 100"
    "second c1 < 100" "second c2 < 100"
    using assms by (simp_all add: in_range_def)
  have t: "(''_'' @ dec2 (hour c1) @ dec2 (minute c1) @ dec2 (second c1) <
            ''_'' @ dec2 (hour c2) @ dec2 (minute c2) @ dec2 (second c2)) =
           ([hour c1, minute c1, second c1] < [hour c2, minute c2, second c2])"
    by (simp add: lex_append_same_length dec2_less[OF r(1,2)] dec2_eq[OF r(1,2)]
        dec2_less[OF r(3,4)] dec2_eq[OF r(3,4)] dec2_less[OF r(5,6)])
  have "(strftime_YmdHMS c1 < strftime_YmdHMS c2) =
        (strftime_Ymd c1 < strftime_Ymd c2 \<or> strftime_Ymd c1 = strftime_Ymd c2 \<and>
         ''_'' @ dec2 (hour c1) @ dec2 (minute c1) @ dec2 (second c1) <
         ''_'' @ dec2 (hour c2) @ dec2 (minute c2) @ dec2 (second c2))"
    unfolding stamp_split by (rule lex_append_same_length) simp
  also have "\<dots> = (date_fields c1 < date_fields c2 \<or> date_fields c1 = date_fields c2 \<and>
         [hour c1, minute c1, second c1] < [hour c2, minute c2, second c2])"
    unfolding t ymd_less[OF assms] ..
  also have "\<dots> = (clock_fields c1 < clock_fields c2)"
    unfolding date_fields_def clock_fields_def by auto
  finally show ?thesis .
qed

lemma log_names_order:
  "(rotation_path ls c1 < rotation_path ls c2) = (strftime_YmdHMS c1 < strftime_YmdHMS c2)"
  "(get_current_file_path ls c1 < get_current_file_path ls c2) = (strftime_Ymd c1 < strftime_Ymd c2)"
  by (simp_all add: rot_path daily_path lex_append_left lex_append_same)

lemma daily_before_rotation:
  assumes "strftime_Ymd c1 = strftime_Ymd c2"
  shows "get_current_file_path ls c1 < rotation_path ls c2"
proof -
  have "''.json'' < ''_'' @ dec2 (hour c2) @ dec2 (minute c2) @ dec2 (second c2) @ ''.json''"
    by simp
  then show ?thesis
    unfolding daily_path rot_path stamp_split assms by (simp add: lex_append_left)
qed

section \<open>The claims\<close>

text \<open>
  Claim C10. Whatever \<open>kwargs\<close> map is passed, the constructors of \<open>DictJSONStore\<close> and
  \<open>ListJSONStore\<close> do what the \<open>JSONStore\<close> constructor does with its default
  configuration (auto-create and auto-backup on, five backups, indent 2, no validator):
  the map is never read.
\<close>

theorem typed_store_kwargs_ignored:
  "DictJSONStore_init cdc path kwargs c w =
     JSONStore_init cdc path True True 5 2 ''utf-8'' None c w \<and>
   ListJSONStore_init cdc path kwargs c w =
     JSONStore_init cdc path True True 5 2 ''utf-8'' None c w \<and>
   DictJSONStore_init cdc path kwargs c w = DictJSONStore_init cdc path [] c w \<and>
   ListJSONStore_init cdc path kwargs c w = ListJSONStore_init cdc path [] c w"
  by (simp add: DictJSONStore_init_def ListJSONStore_init_def)

text \<open>
  Claim C3, as the code has it. The claim asks that an explicit null default be told apart
  from no default; the code uses null as the sign that no default was given. At a null
  default on an absent file the read fails instead of returning null.
\<close>

theorem read_null_default_counterexample:
  "\<not> fs_exists empty_world (file_path demo_store) \<and>
   JSONStore_read id_codec demo_store JNull empty_world \<noteq> Inr JNull"
  by (simp add: fs_exists_def empty_world_def JSONStore_read_def read_body_def)

text \<open>
  Claim C3, amended. On an absent file, \<open>read\<close> returns every default other than null
  unchanged, and fails exactly when the default is null, which is also what an omitted
  default is. On a file that exists, can be opened and parses, it returns the parsed
  content whatever the default.
\<close>

theorem read_default_semantics:
  "(\<not> fs_exists w (file_path st) \<longrightarrow>
      (d \<noteq> JNull \<longrightarrow> JSONStore_read cdc st d w = Inr d) \<and>
      (d = JNull \<longrightarrow> isl (JSONStore_read cdc st d w))) \<and>
   (map_of (files w) (file_path st) = Some f \<and> \<not> rd_fail w (file_path st) \<and>
    parse cdc (content f) = Some v \<longrightarrow> JSONStore_read cdc st d w = Inr v)"
  by (cases d) (auto simp: JSONStore_read_def read_body_def fs_exists_def)

theorem read_default_semantics_witness:
  "\<not> fs_exists empty_world (file_path demo_store) \<and>
   JSONStore_read id_codec demo_store (JInt 7) empty_world = Inr (JInt 7) \<and>
   isl (JSONStore_read id_codec demo_store JNull empty_world) \<and>
   map_of (files demo_world) (file_path demo_store) = Some \<lparr>content = [JArray [JInt 1]], mtime = 50\<rparr> \<and>
   \<not> rd_fail demo_world (file_path demo_store) \<and>
   parse id_codec [JArray [JInt 1]] = Some (JArray [JInt 1]) \<and>
   JSONStore_read id_codec demo_store (JInt 7) demo_world = Inr (JArray [JInt 1])"
proof -
  have a: "\<not> fs_exists empty_world (file_path demo_store)"
    by (simp add: fs_exists_def empty_world_def)
  have b: "map_of (files demo_world) (file_path demo_store) = Some \<lparr>content = [JArray [JInt 1]], mtime = 50\<rparr>"
    by (simp add: demo_world_def demo_store_def empty_world_def)
  have c: "\<not> rd_fail demo_world (file_path demo_store)"
    by (simp add: demo_world_def empty_world_def)
  have d: "parse id_codec [JArray [JInt 1]] = Some (JArray [JInt 1])"
    by (simp add: id_codec_def)
  show ?thesis
    using a b c d
      read_default_semantics [where w = empty_world and st = demo_store and d = "JInt 7"
        and cdc = id_codec]
      read_default_semantics [where w = empty_world and st = demo_store and d = JNull
        and cdc = id_codec]
      read_default_semantics [where w = demo_world and st = demo_store and d = "JInt 7"
        and cdc = id_codec and f = "\<lparr>content = [JArray [JInt 1]], mtime = 50\<rparr>"
        and v = "JArray [JInt 1]"]
    by simp
qed



text \<open>
  Claim C5. With a validator configured, a validating \<open>write\<close> of a document the validator
  rejects throws \<open>ValidationError\<close> and leaves the whole file system as it was, so that no
  backup and no write has happened. A document the validator accepts is written: when the
  temporary file can be opened, the printer prints the document, the rename does not
  throw, and, where a backup is due, the copy and the directory listing do not throw, the
  call returns and the store's file holds the printed document.
\<close>

theorem validation_gate:
  "(validate_func st = Some accept \<and> \<not> accept data \<longrightarrow>
      JSONStore_write cdc st c data True w = (Inl ValidationError, w)) \<and>
   (validate_func st = Some accept \<and> accept data \<and>
    \<not> wr_fail w (file_path st @ ''.tmp'') \<and> \<not> mv_fail w (file_path st) \<and>
    dump cdc (indent st) data = Some bs \<and>
    (auto_backup st \<and> fs_exists w (file_path st) \<longrightarrow>
       \<not> cp_fail w (backup_path st c) \<and> \<not> ls_fail w (parent_path (file_path st))) \<longrightarrow>
      fst (JSONStore_write cdc st c data True w) = Inr () \<and>
      map_of (files (snd (JSONStore_write cdc st c data True w))) (file_path st) =
        Some \<lparr>content = bs, mtime = ticks c\<rparr>)"
proof (intro conjI impI)
  assume "validate_func st = Some accept \<and> \<not> accept data"
  then show "JSONStore_write cdc st c data True w = (Inl ValidationError, w)"
    by (simp add: JSONStore_write_def rejects_def)
next
  assume a: "validate_func st = Some accept \<and> accept data \<and>
    \<not> wr_fail w (file_path st @ ''.tmp'') \<and> \<not> mv_fail w (file_path st) \<and>
    dump cdc (indent st) data = Some bs \<and>
    (auto_backup st \<and> fs_exists w (file_path st) \<longrightarrow>
       \<not> cp_fail w (backup_path st c) \<and> \<not> ls_fail w (parent_path (file_path st)))"
  then have "\<not> (True \<and> rejects st data)" by (simp add: rejects_def)
  then show ok: "fst (JSONStore_write cdc st c data True w) = Inr ()"
    using a by (intro write_ok[where bs = bs]) auto
  show "map_of (files (snd (JSONStore_write cdc st c data True w))) (file_path st) =
        Some \<lparr>content = bs, mtime = ticks c\<rparr>"
    using write_Inr[OF ok] a by auto
qed

theorem validation_gate_witness:
  "validate_func named_store = Some (\<lambda>j. contains j ''name'') \<and>
   \<not> contains (JObject [(''other'', JInt 1)]) ''name'' \<and>
   contains (JObject [(''name'', JString ''x'')]) ''name'' \<and>
   \<not> wr_fail demo_world (file_path named_store @ ''.tmp'') \<and>
   \<not> mv_fail demo_world (file_path named_store) \<and>
   dump id_codec (indent named_store) (JObject [(''name'', JString ''x'')]) =
     Some [JObject [(''name'', JString ''x'')]] \<and>
   auto_backup named_store \<and> fs_exists demo_world (file_path named_store) \<and>
   \<not> cp_fail demo_world (backup_path named_store demo_clock) \<and>
   \<not> ls_fail demo_world (parent_path (file_path named_store)) \<and>
   JSONStore_write id_codec named_store demo_clock (JObject [(''other'', JInt 1)]) True demo_world =
     (Inl ValidationError, demo_world) \<and>
   fst (JSONStore_write id_codec named_store demo_clock (JObject [(''name'', JString ''x'')]) True
     demo_world) = Inr () \<and>
   map_of (files (snd (JSONStore_write id_codec named_store demo_clock
     (JObject [(''name'', JString ''x'')]) True demo_world))) (file_path named_store) =
     Some \<lparr>content = [JObject [(''name'', JString ''x'')]], mtime = ticks demo_clock\<rparr>"
proof -
  have h1: "validate_func named_store = Some (\<lambda>j. contains j ''name'')"
    by (simp add: named_store_def)
  have h2: "\<not> contains (JObject [(''other'', JInt 1)]) ''name''"
    "contains (JObject [(''name'', JString ''x'')]) ''name''" by simp_all
  have h3: "\<not> wr_fail demo_world (file_path named_store @ ''.tmp'')"
    "\<not> mv_fail demo_world (file_path named_store)"
    "\<not> cp_fail demo_world (backup_path named_store demo_clock)"
    "\<not> ls_fail demo_world (parent_path (file_path named_store))"
    by (simp_all add: demo_world_def empty_world_def)
  have h4: "dump id_codec (indent named_store) (JObject [(''name'', JString ''x'')]) =
     Some [JObject [(''name'', JString ''x'')]]" by (simp add: id_codec_def)
  have h5: "auto_backup named_store" "fs_exists demo_world (file_path named_store)"
    by (simp_all add: named_store_def demo_store_def demo_world_def fs_exists_def empty_world_def)
  show ?thesis
    using h1 h2 h3 h4 h5
      validation_gate [where st = named_store and accept = "\<lambda>j. contains j ''name''"
        and data = "JObject [(''other'', JInt 1)]" and cdc = id_codec and c = demo_clock
        and w = demo_world]
      validation_gate [where st = named_store and accept = "\<lambda>j. contains j ''name''"
        and data = "JObject [(''name'', JString ''x'')]" and cdc = id_codec and c = demo_clock
        and w = demo_world and bs = "[JObject [(''name'', JString ''x'')]]"]
    by simp
qed

text \<open>
  Claim C8. After a \<open>write\<close> of a value that has returned, a \<open>read\<close> of the store returns
  that value, for every default, when the file can be opened and the library's parser
  reads back what its printer printed for the value. The \<open>write\<close> does return when the
  validator does not reject the value and no primitive on its way throws.
\<close>

theorem write_read_roundtrip:
  "(fst (JSONStore_write cdc st c v validate w) = Inr () \<and> \<not> rd_fail w (file_path st) \<and>
    dump cdc (indent st) v = Some bs \<and> parse cdc bs = Some v \<longrightarrow>
      JSONStore_read cdc st d (snd (JSONStore_write cdc st c v validate w)) = Inr v) \<and>
   (\<not> (validate \<and> rejects st v) \<and>
    \<not> wr_fail w (file_path st @ ''.tmp'') \<and> \<not> mv_fail w (file_path st) \<and>
    dump cdc (indent st) v = Some bs \<and>
    (auto_backup st \<and> fs_exists w (file_path st) \<longrightarrow>
       \<not> cp_fail w (backup_path st c) \<and> \<not> ls_fail w (parent_path (file_path st))) \<longrightarrow>
      fst (JSONStore_write cdc st c v validate w) = Inr ())"
proof (intro conjI impI)
  assume a: "fst (JSONStore_write cdc st c v validate w) = Inr () \<and> \<not> rd_fail w (file_path st) \<and>
    dump cdc (indent st) v = Some bs \<and> parse cdc bs = Some v"
  let ?w = "snd (JSONStore_write cdc st c v validate w)"
  have "map_of (files ?w) (file_path st) = Some \<lparr>content = bs, mtime = ticks c\<rparr>"
    using write_Inr[of cdc st c v validate w "()"] a by auto
  moreover have "\<not> rd_fail ?w (file_path st)"
    using write_same_faults[of w cdc st c v validate] a by (simp add: same_faults_def)
  ultimately show "JSONStore_read cdc st d ?w = Inr v"
    using a by (simp add: JSONStore_read_def read_body_def)
next
  assume "\<not> (validate \<and> rejects st v) \<and>
    \<not> wr_fail w (file_path st @ ''.tmp'') \<and> \<not> mv_fail w (file_path st) \<and>
    dump cdc (indent st) v = Some bs \<and>
    (auto_backup st \<and> fs_exists w (file_path st) \<longrightarrow>
       \<not> cp_fail w (backup_path st c) \<and> \<not> ls_fail w (parent_path (file_path st)))"
  then show "fst (JSONStore_write cdc st c v validate w) = Inr ()"
    by (intro write_ok[where bs = bs]) auto
qed

theorem write_read_roundtrip_witness:
  "\<not> (True \<and> rejects demo_store (JArray [JInt 2, JString ''a''])) \<and>
   \<not> wr_fail demo_world (file_path demo_store @ ''.tmp'') \<and>
   \<not> mv_fail demo_world (file_path demo_store) \<and>
   \<not> rd_fail demo_world (file_path demo_store) \<and>
   dump id_codec (indent demo_store) (JArray [JInt 2, JString ''a'']) =
     Some [JArray [JInt 2, JString ''a'']] \<and>
   parse id_codec [JArray [JInt 2, JString ''a'']] = Some (JArray [JInt 2, JString ''a'']) \<and>
   auto_backup demo_store \<and> fs_exists demo_world (file_path demo_store) \<and>
   \<not> cp_fail demo_world (backup_path demo_store demo_clock) \<and>
   \<not> ls_fail demo_world (parent_path (file_path demo_store)) \<and>
   fst (JSONStore_write id_codec demo_store demo_clock (JArray [JInt 2, JString ''a'']) True
     demo_world) = Inr () \<and>
   JSONStore_read id_codec demo_store JNull
     (snd (JSONStore_write id_codec demo_store demo_clock (JArray [JInt 2, JString ''a'']) True
       demo_world)) = Inr (JArray [JInt 2, JString ''a''])"
proof -
  have h1: "\<not> (True \<and> rejects demo_store (JArray [JInt 2, JString ''a'']))"
    by (simp add: rejects_def demo_store_def)
  have h2: "\<not> wr_fail demo_world (file_path demo_store @ ''.tmp'')"
    "\<not> mv_fail demo_world (file_path demo_store)"
    "\<not> rd_fail demo_world (file_path demo_store)"
    "\<not> cp_fail demo_world (backup_path demo_store demo_clock)"
    "\<not> ls_fail demo_world (parent_path (file_path demo_store))"
    by (simp_all add: demo_world_def empty_world_def)
  have h3: "dump id_codec (indent demo_store) (JArray [JInt 2, JString ''a'']) =
     Some [JArray [JInt 2, JString ''a'']]"
    "parse id_codec [JArray [JInt 2, JString ''a'']] = Some (JArray [JInt 2, JString ''a''])"
    by (simp_all add: id_codec_def)
  have h4: "auto_backup demo_store" "fs_exists demo_world (file_path demo_store)"
    by (simp_all add: demo_store_def demo_world_def fs_exists_def empty_world_def)
  show ?thesis
    using h1 h2 h3 h4
      write_read_roundtrip [where cdc = id_codec and st = demo_store and c = demo_clock
        and v = "JArray [JInt 2, JString ''a'']" and validate = True and w = demo_world
        and bs = "[JArray [JInt 2, JString ''a'']]" and d = JNull]
    by simp
qed

text \<open>
  Claim C9. \<open>ListJSONStore::remove\<close> never returns false: whenever it returns, it returns
  true. It does return, with true, when the current document parses, the temporary file can
  be opened, the printer prints the new document and the rename does not throw; this
  includes the cases where the document is not an array or holds no element equal to the
  item, in which the document written back is the one that was read.
\<close>

theorem remove_always_true:
  "fst (ListJSONStore_remove cdc st c item w) \<noteq> Inr False \<and>
   (current_data cdc st w = Inr d \<and>
    \<not> wr_fail w (file_path st @ ''.tmp'') \<and> \<not> mv_fail w (file_path st) \<and>
    dump cdc (indent st) (remove_func item d) = Some bs \<longrightarrow>
      fst (ListJSONStore_remove cdc st c item w) = Inr True \<and>
      map_of (files (snd (ListJSONStore_remove cdc st c item w))) (file_path st) =
        Some \<lparr>content = bs, mtime = ticks c\<rparr>) \<and>
   (\<not> is_array d \<or> item \<notin> set (elems d) \<longrightarrow> remove_func item d = d)"
proof (intro conjI impI)
  show "fst (ListJSONStore_remove cdc st c item w) \<noteq> Inr False"
    by (cases "JSONStore_update cdc st c (remove_func item) w")
      (auto simp: ListJSONStore_remove_def split: sum.splits)
next
  assume a: "current_data cdc st w = Inr d \<and>
    \<not> wr_fail w (file_path st @ ''.tmp'') \<and> \<not> mv_fail w (file_path st) \<and>
    dump cdc (indent st) (remove_func item d) = Some bs"
  then have u: "JSONStore_update cdc st c (remove_func item) w =
     (Inr (remove_func item d),
      fs_put (file_path st) \<lparr>content = bs, mtime = ticks c\<rparr>
        (fs_remove (file_path st @ ''.tmp'')
          (fs_put (file_path st @ ''.tmp'') \<lparr>content = bs, mtime = ticks c\<rparr> w)))"
    by (intro update_ok) auto
  show "fst (ListJSONStore_remove cdc st c item w) = Inr True"
    by (simp add: ListJSONStore_remove_def u)
  show "map_of (files (snd (ListJSONStore_remove cdc st c item w))) (file_path st) =
        Some \<lparr>content = bs, mtime = ticks c\<rparr>"
    by (simp add: ListJSONStore_remove_def u AList.update_conv')
next
  assume "\<not> is_array d \<or> item \<notin> set (elems d)"
  then show "remove_func item d = d" by (rule remove_func_absent)
qed

theorem remove_always_true_witness:
  "current_data id_codec demo_store demo_world = Inr (JArray [JInt 1]) \<and>
   \<not> wr_fail demo_world (file_path demo_store @ ''.tmp'') \<and>
   \<not> mv_fail demo_world (file_path demo_store) \<and>
   JInt 5 \<notin> set (elems (JArray [JInt 1])) \<and>
   dump id_codec (indent demo_store) (remove_func (JInt 5) (JArray [JInt 1])) =
     Some [JArray [JInt 1]] \<and>
   fst (ListJSONStore_remove id_codec demo_store demo_clock (JInt 5) demo_world) = Inr True \<and>
   map_of (files (snd (ListJSONStore_remove id_codec demo_store demo_clock (JInt 5) demo_world)))
     (file_path demo_store) = Some \<lparr>content = [JArray [JInt 1]], mtime = ticks demo_clock\<rparr> \<and>
   remove_func (JInt 5) (JArray [JInt 1]) = JArray [JInt 1]"
proof -
  have h1: "current_data id_codec demo_store demo_world = Inr (JArray [JInt 1])"
    by (simp add: current_data_def demo_world_def demo_store_def empty_world_def id_codec_def)
  have h2: "\<not> wr_fail demo_world (file_path demo_store @ ''.tmp'')"
    "\<not> mv_fail demo_world (file_path demo_store)"
    by (simp_all add: demo_world_def empty_world_def)
  have h3: "JInt 5 \<notin> set (elems (JArray [JInt 1]))" by simp
  have h4: "dump id_codec (indent demo_store) (remove_func (JInt 5) (JArray [JInt 1])) =
     Some [JArray [JInt 1]]" by (simp add: id_codec_def remove_func_def)
  show ?thesis
    using h1 h2 h3 h4
      remove_always_true [where cdc = id_codec and st = demo_store and c = demo_clock
        and item = "JInt 5" and w = demo_world and d = "JArray [JInt 1]"
        and bs = "[JArray [JInt 1]]"]
    by simp
qed

text \<open>
  Claim C2, at a store with auto-backup whose file exists. \<open>update\<close> with the identity
  reads the document, writes it back under the new time and returns it, and leaves no
  backup file behind, where \<open>write\<close> of the same document on the same file system leaves
  one: \<open>update\<close> calls \<open>write_internal\<close> without \<open>create_backup\<close>.
\<close>

theorem update_takes_no_backup:
  "auto_backup demo_store \<and> fs_exists demo_world (file_path demo_store) \<and>
   fst (JSONStore_update id_codec demo_store demo_clock id demo_world) = Inr (JArray [JInt 1]) \<and>
   files (snd (JSONStore_update id_codec demo_store demo_clock id demo_world)) =
     [(''data/x.json'', \<lparr>content = [JArray [JInt 1]], mtime = 100\<rparr>)] \<and>
   backup_files demo_store (snd (JSONStore_update id_codec demo_store demo_clock id demo_world)) = [] \<and>
   fst (JSONStore_write id_codec demo_store demo_clock (JArray [JInt 1]) True demo_world) = Inr () \<and>
   files (snd (JSONStore_write id_codec demo_store demo_clock (JArray [JInt 1]) True demo_world)) =
     [(''data/x.json'', \<lparr>content = [JArray [JInt 1]], mtime = 100\<rparr>),
      (''data/x_backup_20240102_030405.json'', \<lparr>content = [JArray [JInt 1]], mtime = 100\<rparr>)] \<and>
   backup_files demo_store
     (snd (JSONStore_write id_codec demo_store demo_clock (JArray [JInt 1]) True demo_world)) =
     [''data/x_backup_20240102_030405.json'']"
  by code_simp

text \<open>
  The backups of a store whose directory can be listed. Where iterating the directory of
  the document does not throw, no removal throws and the document's own name does not
  contain the store's backup pattern: if the number of files that match the store's backup
  pattern is at most \<open>max_backups\<close>, it still is after every sequence of \<open>write\<close>,
  \<open>update\<close> and \<open>delete\<close> calls. A backup creation that finds the
  document and can copy it writes the copy under the time-stamped name, and what is left
  of the matching files afterwards are those not beyond the index \<open>max_backups\<close> in the
  order of descending modification time, at most \<open>max_backups\<close> many.
\<close>

theorem backup_bound:
  "(\<not> ls_fail w (parent_path (file_path st)) \<and> (\<forall>p. \<not> rm_fail w p) \<and>
    \<not> str_find (backup_pattern st) (filename (file_path st)) \<and>
    int (length (backup_files st w)) \<le> max_backups st \<longrightarrow>
      int (length (backup_files st (run_ops cdc st ops w))) \<le> max_backups st) \<and>
   (\<not> ls_fail w (parent_path (file_path st)) \<and> (\<forall>p. \<not> rm_fail w p) \<and>
    map_of (files w) (file_path st) = Some f \<and> \<not> cp_fail w (backup_path st c) \<and>
    w1 = fs_put (backup_path st c) \<lparr>content = content f, mtime = ticks c\<rparr> w \<longrightarrow>
      create_backup st c w = (Inr (backup_path st c), fold remove_quiet (doomed st w1) w1) \<and>
      doomed st w1 =
        drop (to_size_t (max_backups st))
          (sort_key (\<lambda>p. - last_write_time w1 p) (backup_files st w1)) \<and>
      backup_files st (snd (create_backup st c w)) =
        [p \<leftarrow> backup_files st w1. p \<notin> set (doomed st w1)] \<and>
      length (backup_files st (snd (create_backup st c w))) \<le> to_size_t (max_backups st))"
proof (intro conjI impI)
  assume "\<not> ls_fail w (parent_path (file_path st)) \<and> (\<forall>p. \<not> rm_fail w p) \<and>
    \<not> str_find (backup_pattern st) (filename (file_path st)) \<and>
    int (length (backup_files st w)) \<le> max_backups st"
  then show "int (length (backup_files st (run_ops cdc st ops w))) \<le> max_backups st"
    by (intro run_ops_bound) auto
next
  assume a: "\<not> ls_fail w (parent_path (file_path st)) \<and> (\<forall>p. \<not> rm_fail w p) \<and>
    map_of (files w) (file_path st) = Some f \<and> \<not> cp_fail w (backup_path st c) \<and>
    w1 = fs_put (backup_path st c) \<lparr>content = content f, mtime = ticks c\<rparr> w"
  then have f: "map_of (files w) (file_path st) = Some f" and cp: "\<not> cp_fail w (backup_path st c)"
    and ls: "\<not> ls_fail w (parent_path (file_path st))" and rm: "\<forall>p. \<not> rm_fail w p"
    and w1: "w1 = fs_put (backup_path st c) \<lparr>content = content f, mtime = ticks c\<rparr> w"
    by simp_all
  show "create_backup st c w = (Inr (backup_path st c), fold remove_quiet (doomed st w1) w1)"
    by (rule create_backup_pruned(1)[OF f cp ls rm w1])
  show "doomed st w1 =
        drop (to_size_t (max_backups st))
          (sort_key (\<lambda>p. - last_write_time w1 p) (backup_files st w1))"
    by (simp add: doomed_def)
  show "backup_files st (snd (create_backup st c w)) =
        [p \<leftarrow> backup_files st w1. p \<notin> set (doomed st w1)]"
    by (rule create_backup_pruned(2)[OF f cp ls rm w1])
  show "length (backup_files st (snd (create_backup st c w))) \<le> to_size_t (max_backups st)"
    by (rule create_backup_pruned(3)[OF f cp ls rm w1])
qed

theorem backup_bound_witness:
  "\<not> ls_fail demo_world (parent_path (file_path tight_store)) \<and>
   (\<forall>p. \<not> rm_fail demo_world p) \<and>
   \<not> str_find (backup_pattern tight_store) (filename (file_path tight_store)) \<and>
   int (length (backup_files tight_store demo_world)) \<le> max_backups tight_store \<and>
   map_of (files demo_world) (file_path tight_store) =
     Some \<lparr>content = [JArray [JInt 1]], mtime = 50\<rparr> \<and>
   \<not> cp_fail demo_world (backup_path tight_store demo_clock) \<and>
   int (length (backup_files tight_store (run_ops id_codec tight_store demo_ops demo_world)))
     \<le> max_backups tight_store \<and>
   backup_files tight_store (run_ops id_codec tight_store demo_ops demo_world) =
     [''data/x_backup_20240102_030408.json''] \<and>
   length (backup_files tight_store (snd (create_backup tight_store demo_clock demo_world)))
     \<le> to_size_t (max_backups tight_store)"
proof -
  have h1: "\<not> ls_fail demo_world (parent_path (file_path tight_store))"
    "\<forall>p. \<not> rm_fail demo_world p"
    "\<not> cp_fail demo_world (backup_path tight_store demo_clock)"
    by (simp_all add: demo_world_def empty_world_def)
  have h2: "\<not> str_find (backup_pattern tight_store) (filename (file_path tight_store))"
    by code_simp
  have h3: "int (length (backup_files tight_store demo_world)) \<le> max_backups tight_store"
    by code_simp
  have h4: "map_of (files demo_world) (file_path tight_store) =
     Some \<lparr>content = [JArray [JInt 1]], mtime = 50\<rparr>"
    by (simp add: demo_world_def empty_world_def tight_store_def demo_store_def)
  have h5: "backup_files tight_store (run_ops id_codec tight_store demo_ops demo_world) =
     [''data/x_backup_20240102_030408.json'']"
    by code_simp
  show ?thesis
    using h1 h2 h3 h4 h5
      backup_bound [where w = demo_world and st = tight_store and cdc = id_codec
        and ops = demo_ops and c = demo_clock
        and f = "\<lparr>content = [JArray [JInt 1]], mtime = 50\<rparr>"
        and ?w1.0 = "fs_put (backup_path tight_store demo_clock)
          \<lparr>content = content \<lparr>content = [JArray [JInt 1]], mtime = 50\<rparr>,
           mtime = ticks demo_clock\<rparr> demo_world"]
    by blast
qed

text \<open>
  Claim C4, at a store with room for one backup whose path has no directory part, on a file
  system where iterating the empty path throws. \<open>cleanup_old_backups\<close> iterates the parent
  path as it is, so every \<open>write\<close> to the existing document copies it to the time-stamped
  name and then fails with the error of the iteration: the document is not written and no
  backup is ever removed. After three writes at three different seconds the store has three
  backups, more than \<open>max_backups\<close>, where the same calls on the store of the document
  \<open>data/x.json\<close> leave one.
\<close>

theorem backups_exceed_bound:
  "parent_path (file_path bare_store) = [] \<and> ls_fail bare_world [] \<and>
   max_backups bare_store = 1 \<and> auto_backup bare_store \<and>
   backup_files bare_store bare_world = [] \<and>
   fst (JSONStore_write id_codec bare_store demo_clock (JInt 1) True bare_world) =
     Inl FilesystemError \<and>
   files (snd (JSONStore_write id_codec bare_store demo_clock (JInt 1) True bare_world)) =
     [(''x.json'', \<lparr>content = [JArray [JInt 1]], mtime = 50\<rparr>),
      (''x_backup_20240102_030405.json'', \<lparr>content = [JArray [JInt 1]], mtime = 100\<rparr>)] \<and>
   backup_files bare_store (run_ops id_codec bare_store bare_ops bare_world) =
     [''x_backup_20240102_030405.json'', ''x_backup_20240102_030406.json'',
      ''x_backup_20240102_030407.json''] \<and>
   int (length (backup_files bare_store (run_ops id_codec bare_store bare_ops bare_world))) >
     max_backups bare_store \<and>
   backup_files tight_store (run_ops id_codec tight_store bare_ops demo_world) =
     [''data/x_backup_20240102_030407.json'']"
  by code_simp

text \<open>
  Claim C6. A journal with at most two entries per file and automatic rotation, on an empty
  file system where no primitive throws and the library reads back the documents it prints
  here: after three \<open>add_log\<close> calls on one day there are exactly two files, the day's file
  with the first two entries and the rotation file named after the time of the third call
  with the third entry, each entry stamped as \<open>add_log\<close> stamps it. And in general, with
  automatic rotation, a day's file whose array has reached the maximum length is left as it
  is by every later sequence of \<open>add_log\<close> calls, whatever their times and whether or not
  they fail.
\<close>

theorem rotation_after_maximum:
  "(max_entries_per_file ls = 2 \<and> auto_rotate ls \<and> files w = [] \<and> no_faults w \<and>
    roundtrip cdc (JObject []) \<and> roundtrip cdc (JArray [s1]) \<and>
    roundtrip cdc (JArray [s1, s2]) \<and> roundtrip cdc (JArray [s3]) \<and>
    strftime_Ymd c2 = strftime_Ymd c1 \<and> strftime_Ymd c3 = strftime_Ymd c1 \<and>
    stamp_entry c1 e1 = Inr s1 \<and> stamp_entry c2 e2 = Inr s2 \<and> stamp_entry c3 e3 = Inr s3 \<longrightarrow>
      fst ` set (files (snd (add_logs cdc ls [(c1, e1), (c2, e2), (c3, e3)] w))) =
        {get_current_file_path ls c1, rotation_path ls c3} \<and>
      get_current_file_path ls c1 \<noteq> rotation_path ls c3 \<and>
      doc_at cdc (snd (add_logs cdc ls [(c1, e1), (c2, e2), (c3, e3)] w))
        (get_current_file_path ls c1) = Some (JArray [s1, s2]) \<and>
      doc_at cdc (snd (add_logs cdc ls [(c1, e1), (c2, e2), (c3, e3)] w))
        (rotation_path ls c3) = Some (JArray [s3])) \<and>
   (auto_rotate ls \<and> doc_at cdc w (get_current_file_path ls c0) = Some d \<and>
    to_size_t (max_entries_per_file ls) \<le> length (elems d) \<longrightarrow>
      map_of (files (snd (add_logs cdc ls ces w))) (get_current_file_path ls c0) =
        map_of (files w) (get_current_file_path ls c0))"
proof (intro conjI impI)
  assume a: "max_entries_per_file ls = 2 \<and> auto_rotate ls \<and> files w = [] \<and> no_faults w \<and>
    roundtrip cdc (JObject []) \<and> roundtrip cdc (JArray [s1]) \<and>
    roundtrip cdc (JArray [s1, s2]) \<and> roundtrip cdc (JArray [s3]) \<and>
    strftime_Ymd c2 = strftime_Ymd c1 \<and> strftime_Ymd c3 = strftime_Ymd c1 \<and>
    stamp_entry c1 e1 = Inr s1 \<and> stamp_entry c2 e2 = Inr s2 \<and> stamp_entry c3 e3 = Inr s3"
  then have h: "max_entries_per_file ls = 2" "auto_rotate ls" "files w = []" "no_faults w"
    "roundtrip cdc (JObject [])" "roundtrip cdc (JArray [s1])" "roundtrip cdc (JArray [s1, s2])"
    "roundtrip cdc (JArray [s3])" "strftime_Ymd c2 = strftime_Ymd c1"
    "strftime_Ymd c3 = strftime_Ymd c1"
    "stamp_entry c1 e1 = Inr s1" "stamp_entry c2 e2 = Inr s2" "stamp_entry c3 e3 = Inr s3"
    by blast+
  note t = three_logs[OF h]
  show "fst ` set (files (snd (add_logs cdc ls [(c1, e1), (c2, e2), (c3, e3)] w))) =
        {get_current_file_path ls c1, rotation_path ls c3}" by (rule t(3))
  show "get_current_file_path ls c1 \<noteq> rotation_path ls c3" by (rule t(4))
  show "doc_at cdc (snd (add_logs cdc ls [(c1, e1), (c2, e2), (c3, e3)] w))
        (get_current_file_path ls c1) = Some (JArray [s1, s2])" by (rule t(1))
  show "doc_at cdc (snd (add_logs cdc ls [(c1, e1), (c2, e2), (c3, e3)] w))
        (rotation_path ls c3) = Some (JArray [s3])" by (rule t(2))
next
  assume "auto_rotate ls \<and> doc_at cdc w (get_current_file_path ls c0) = Some d \<and>
    to_size_t (max_entries_per_file ls) \<le> length (elems d)"
  then have h: "auto_rotate ls" "doc_at cdc w (get_current_file_path ls c0) = Some d"
    "to_size_t (max_entries_per_file ls) \<le> length (elems d)" by blast+
  show "map_of (files (snd (add_logs cdc ls ces w))) (get_current_file_path ls c0) =
        map_of (files w) (get_current_file_path ls c0)"
    by (rule add_logs_keeps_full[OF h])
qed

theorem rotation_after_maximum_witness:
  "max_entries_per_file demo_journal = 2 \<and> auto_rotate demo_journal \<and>
   files empty_world = [] \<and> no_faults empty_world \<and>
   roundtrip id_codec (JObject []) \<and>
   roundtrip id_codec (JArray [JObject [(''timestamp'', JInt 100)]]) \<and>
   roundtrip id_codec
     (JArray [JObject [(''timestamp'', JInt 100)], JObject [(''timestamp'', JInt 7)]]) \<and>
   roundtrip id_codec (JArray [JObject [(''timestamp'', JInt 300)]]) \<and>
   strftime_Ymd demo_clock2 = strftime_Ymd demo_clock \<and>
   strftime_Ymd demo_clock3 = strftime_Ymd demo_clock \<and>
   stamp_entry demo_clock (JObject []) = Inr (JObject [(''timestamp'', JInt 100)]) \<and>
   stamp_entry demo_clock2 (JObject [(''timestamp'', JInt 7)]) =
     Inr (JObject [(''timestamp'', JInt 7)]) \<and>
   stamp_entry demo_clock3 JNull = Inr (JObject [(''timestamp'', JInt 300)]) \<and>
   doc_at id_codec full_world (get_current_file_path demo_journal demo_clock) =
     Some (JArray [JInt 1, JInt 2]) \<and>
   to_size_t (max_entries_per_file demo_journal) \<le> length (elems (JArray [JInt 1, JInt 2])) \<and>
   fst ` set (files (snd (add_logs id_codec demo_journal
     [(demo_clock, JObject []), (demo_clock2, JObject [(''timestamp'', JInt 7)]),
      (demo_clock3, JNull)] empty_world))) =
     {get_current_file_path demo_journal demo_clock, rotation_path demo_journal demo_clock3} \<and>
   doc_at id_codec (snd (add_logs id_codec demo_journal
     [(demo_clock, JObject []), (demo_clock2, JObject [(''timestamp'', JInt 7)]),
      (demo_clock3, JNull)] empty_world)) (get_current_file_path demo_journal demo_clock) =
     Some (JArray [JObject [(''timestamp'', JInt 100)], JObject [(''timestamp'', JInt 7)]]) \<and>
   doc_at id_codec (snd (add_logs id_codec demo_journal
     [(demo_clock, JObject []), (demo_clock2, JObject [(''timestamp'', JInt 7)]),
      (demo_clock3, JNull)] empty_world)) (rotation_path demo_journal demo_clock3) =
     Some (JArray [JObject [(''timestamp'', JInt 300)]]) \<and>
   map_of (files (snd (add_logs id_codec demo_journal [(demo_clock3, JObject [])] full_world)))
     (get_current_file_path demo_journal demo_clock) =
     map_of (files full_world) (get_current_file_path demo_journal demo_clock) \<and>
   get_current_file_path demo_journal demo_clock = ''logs/log_20240102.json'' \<and>
   rotation_path demo_journal demo_clock3 = ''logs/log_20240102_030407.json''"
proof -
  have h1: "max_entries_per_file demo_journal = 2" "auto_rotate demo_journal"
    by (simp_all add: demo_journal_def LogStore_init_def)
  have h2: "files empty_world = []" "no_faults empty_world"
    by (simp_all add: empty_world_def no_faults_def)
  have h3: "roundtrip id_codec (JObject [])"
    "roundtrip id_codec (JArray [JObject [(''timestamp'', JInt 100)]])"
    "roundtrip id_codec
       (JArray [JObject [(''timestamp'', JInt 100)], JObject [(''timestamp'', JInt 7)]])"
    "roundtrip id_codec (JArray [JObject [(''timestamp'', JInt 300)]])"
    by (simp_all add: roundtrip_def id_codec_def)
  have h4: "strftime_Ymd demo_clock2 = strftime_Ymd demo_clock"
    "strftime_Ymd demo_clock3 = strftime_Ymd demo_clock"
    by (simp_all add: strftime_Ymd_def demo_clock2_def demo_clock3_def)
  have h5: "stamp_entry demo_clock (JObject []) = Inr (JObject [(''timestamp'', JInt 100)])"
    "stamp_entry demo_clock2 (JObject [(''timestamp'', JInt 7)]) =
       Inr (JObject [(''timestamp'', JInt 7)])"
    "stamp_entry demo_clock3 JNull = Inr (JObject [(''timestamp'', JInt 300)])"
    by (simp_all add: stamp_entry_def demo_clock_def demo_clock3_def)
  have h6: "get_current_file_path demo_journal demo_clock = ''logs/log_20240102.json''"
    "rotation_path demo_journal demo_clock3 = ''logs/log_20240102_030407.json''"
    by code_simp+
  have h7: "doc_at id_codec full_world (get_current_file_path demo_journal demo_clock) =
     Some (JArray [JInt 1, JInt 2])"
    unfolding h6 by (simp add: doc_at_def full_world_def empty_world_def id_codec_def)
  have h8: "to_size_t (max_entries_per_file demo_journal) \<le> length (elems (JArray [JInt 1, JInt 2]))"
    unfolding h1(1) by simp
  note t = rotation_after_maximum [where ls = demo_journal and w = empty_world and cdc = id_codec
        and ?c1.0 = demo_clock and ?c2.0 = demo_clock2 and ?c3.0 = demo_clock3
        and ?e1.0 = "JObject []" and ?e2.0 = "JObject [(''timestamp'', JInt 7)]" and ?e3.0 = JNull
        and ?s1.0 = "JObject [(''timestamp'', JInt 100)]"
        and ?s2.0 = "JObject [(''timestamp'', JInt 7)]"
        and ?s3.0 = "JObject [(''timestamp'', JInt 300)]"]
  note u = rotation_after_maximum [where ls = demo_journal and w = full_world and cdc = id_codec
        and ?c0.0 = demo_clock and d = "JArray [JInt 1, JInt 2]"
        and ces = "[(demo_clock3, JObject [])]"]
  have H1: "max_entries_per_file demo_journal = 2 \<and> auto_rotate demo_journal \<and>
    files empty_world = [] \<and> no_faults empty_world \<and>
   roundtrip id_codec (JObject []) \<and>
   roundtrip id_codec (JArray [JObject [(''timestamp'', JInt 100)]]) \<and>
   roundtrip id_codec
     (JArray [JObject [(''timestamp'', JInt 100)], JObject [(''timestamp'', JInt 7)]]) \<and>
   roundtrip id_codec (JArray [JObject [(''timestamp'', JInt 300)]]) \<and>
    strftime_Ymd demo_clock2 = strftime_Ymd demo_clock \<and>
    strftime_Ymd demo_clock3 = strftime_Ymd demo_clock \<and>
    stamp_entry demo_clock (JObject []) = Inr (JObject [(''timestamp'', JInt 100)]) \<and>
    stamp_entry demo_clock2 (JObject [(''timestamp'', JInt 7)]) =
      Inr (JObject [(''timestamp'', JInt 7)]) \<and>
    stamp_entry demo_clock3 JNull = Inr (JObject [(''timestamp'', JInt 300)])"
    by (intro conjI h1 h2 h3 h4 h5)
  have H2: "auto_rotate demo_journal \<and>
    doc_at id_codec full_world (get_current_file_path demo_journal demo_clock) =
      Some (JArray [JInt 1, JInt 2]) \<and>
    to_size_t (max_entries_per_file demo_journal) \<le> length (elems (JArray [JInt 1, JInt 2]))"
    by (intro conjI h1 h7 h8)
  note c1 = t[THEN conjunct1, THEN mp, OF H1]
  note c2 = u[THEN conjunct2, THEN mp, OF H2]
  show ?thesis
    by (intro conjI h1 h2 h3 h4 h5 h6 h7 h8 c2 c1[THEN conjunct1]
        c1[THEN conjunct2, THEN conjunct2, THEN conjunct1]
        c1[THEN conjunct2, THEN conjunct2, THEN conjunct2])
qed

text \<open>
  Claim C7. The start and end dates have no effect on what \<open>get_logs\<close> returns. Where its
  directory can be listed and every file whose name contains the prefix pattern holds a
  document, \<open>get_logs\<close> returns, in the ascending order of these files' paths, the elements
  of their arrays one file after the other, filtered by the predicate if there is one, and
  changes nothing. The order of the paths is the order of time: rotation files are ordered
  as the times in their names, daily files as their dates, and a daily file comes before
  the rotation files of its day (for clock readings whose year has four digits).
\<close>

theorem get_logs_semantics:
  "get_logs cdc ls start_date end_date filter_func c w =
     get_logs cdc ls start_date' end_date' filter_func c w \<and>
   (fs_list w (directory ls) = Some entries \<and>
    (\<forall>p \<in> set (log_files ls entries). doc_at cdc w p \<noteq> None) \<longrightarrow>
      get_logs cdc ls start_date end_date filter_func c w =
        (Inr (case filter_func of
                None \<Rightarrow> concat (map (file_entries cdc w) (log_files ls entries))
              | Some f \<Rightarrow> filter f (concat (map (file_entries cdc w) (log_files ls entries)))),
         w) \<and>
      sorted (log_files ls entries) \<and>
      set (log_files ls entries) =
        {p \<in> set entries. str_find (prefix ls @ ''_'') (filename p)}) \<and>
   (in_range c1 \<and> in_range c2 \<longrightarrow>
      (rotation_path ls c1 < rotation_path ls c2) = (clock_fields c1 < clock_fields c2) \<and>
      (get_current_file_path ls c1 < get_current_file_path ls c2) =
        (date_fields c1 < date_fields c2)) \<and>
   (strftime_Ymd c1 = strftime_Ymd c2 \<longrightarrow> get_current_file_path ls c1 < rotation_path ls c2)"
proof (intro conjI impI)
  show "get_logs cdc ls start_date end_date filter_func c w =
     get_logs cdc ls start_date' end_date' filter_func c w" by (rule get_logs_bounds)
next
  assume "fs_list w (directory ls) = Some entries \<and>
    (\<forall>p \<in> set (log_files ls entries). doc_at cdc w p \<noteq> None)"
  then have h: "fs_list w (directory ls) = Some entries"
    "\<forall>p \<in> set (log_files ls entries). doc_at cdc w p \<noteq> None" by blast+
  show "get_logs cdc ls start_date end_date filter_func c w =
        (Inr (case filter_func of
                None \<Rightarrow> concat (map (file_entries cdc w) (log_files ls entries))
              | Some f \<Rightarrow> filter f (concat (map (file_entries cdc w) (log_files ls entries)))),
         w)" by (rule get_logs_ok[OF h])
  show "sorted (log_files ls entries)" by (rule log_files_sorted)
  show "set (log_files ls entries) =
        {p \<in> set entries. str_find (prefix ls @ ''_'') (filename p)}" by (rule log_files_set)
next
  assume "in_range c1 \<and> in_range c2"
  then have r: "in_range c1" "in_range c2" by blast+
  show "(rotation_path ls c1 < rotation_path ls c2) = (clock_fields c1 < clock_fields c2)"
    unfolding log_names_order(1) by (rule ymdhms_less[OF r])
  show "(get_current_file_path ls c1 < get_current_file_path ls c2) =
        (date_fields c1 < date_fields c2)"
    unfolding log_names_order(2) by (rule ymd_less(1)[OF r])
next
  assume "strftime_Ymd c1 = strftime_Ymd c2"
  then show "get_current_file_path ls c1 < rotation_path ls c2" by (rule daily_before_rotation)
qed

theorem get_logs_semantics_witness:
  "fs_list journal_world (directory demo_journal) =
     Some [''logs/log_20240102_030407.json'', ''logs/notes.txt'', ''logs/log_20240102.json''] \<and>
   log_files demo_journal
     [''logs/log_20240102_030407.json'', ''logs/notes.txt'', ''logs/log_20240102.json''] =
     [''logs/log_20240102.json'', ''logs/log_20240102_030407.json''] \<and>
   in_range demo_clock \<and> in_range demo_clock3 \<and>
   strftime_Ymd demo_clock = strftime_Ymd demo_clock3 \<and>
   get_logs id_codec demo_journal 0 0 (Some (\<lambda>j. j \<noteq> JInt 2)) demo_clock journal_world =
     (Inr (case Some (\<lambda>j. j \<noteq> JInt 2) of
             None \<Rightarrow> concat (map (file_entries id_codec journal_world) (log_files demo_journal
               [''logs/log_20240102_030407.json'', ''logs/notes.txt'', ''logs/log_20240102.json'']))
           | Some f \<Rightarrow> filter f (concat (map (file_entries id_codec journal_world)
               (log_files demo_journal
               [''logs/log_20240102_030407.json'', ''logs/notes.txt'', ''logs/log_20240102.json''])))),
      journal_world) \<and>
   fst (get_logs id_codec demo_journal 0 0 (Some (\<lambda>j. j \<noteq> JInt 2)) demo_clock journal_world) =
     Inr [JInt 1, JInt 3] \<and>
   (rotation_path demo_journal demo_clock < rotation_path demo_journal demo_clock3) =
     (clock_fields demo_clock < clock_fields demo_clock3) \<and>
   get_current_file_path demo_journal demo_clock < rotation_path demo_journal demo_clock3"
proof -
  let ?es = "[''logs/log_20240102_030407.json'', ''logs/notes.txt'', ''logs/log_20240102.json'']"
  have h1: "fs_list journal_world (directory demo_journal) = Some ?es"
    by code_simp
  have h2: "log_files demo_journal ?es =
     [''logs/log_20240102.json'', ''logs/log_20240102_030407.json'']"
    by code_simp
  have h3: "\<forall>p \<in> set (log_files demo_journal ?es). doc_at id_codec journal_world p \<noteq> None"
    unfolding h2 by (simp add: doc_at_def journal_world_def empty_world_def id_codec_def)
  have h4: "in_range demo_clock" "in_range demo_clock3"
    by (simp_all add: in_range_def demo_clock_def demo_clock3_def)
  have h5: "strftime_Ymd demo_clock = strftime_Ymd demo_clock3"
    by (simp add: strftime_Ymd_def demo_clock3_def)
  have h6: "fst (get_logs id_codec demo_journal 0 0 (Some (\<lambda>j. j \<noteq> JInt 2)) demo_clock
     journal_world) = Inr [JInt 1, JInt 3]"
    by code_simp
  note t = get_logs_semantics [where cdc = id_codec and ls = demo_journal and w = journal_world
      and entries = ?es and ?c1.0 = demo_clock and ?c2.0 = demo_clock3
      and start_date = 0 and end_date = 0 and filter_func = "Some (\<lambda>j. j \<noteq> JInt 2)"
      and c = demo_clock]
  have H: "fs_list journal_world (directory demo_journal) = Some ?es \<and>
    (\<forall>p \<in> set (log_files demo_journal ?es). doc_at id_codec journal_world p \<noteq> None)"
    by (intro conjI h1 h3)
  have R: "in_range demo_clock \<and> in_range demo_clock3" by (intro conjI h4)
  note c2 = t[THEN conjunct2, THEN conjunct1, THEN mp, OF H, THEN conjunct1]
  note c3 = t[THEN conjunct2, THEN conjunct2, THEN conjunct1, THEN mp, OF R, THEN conjunct1]
  note c4 = t[THEN conjunct2, THEN conjunct2, THEN conjunct2, THEN mp, OF h5]
  show ?thesis
    by (intro conjI h1 h2 h4 h5 h6 c2 c3 c4)
qed

end
